theory Spec2Isabelle
  imports Complex_Main "HOL-Library.Sublist"
begin

section \<open>Values, objects and the heap\<close>

text \<open>
  cyclone.js works on JavaScript values: primitives are copied by value, objects live on
  a heap and are known by their identity. The heap is a list of objects; the address of
  an object is its index, and allocation appends, so that a new object is always distinct
  from every existing one.
\<close>

type_synonym addr = nat

datatype jsnum = NaN | Infinity bool | Finite real

datatype val =
    VUndefined
  | VNull
  | VBool bool
  | VNumber jsnum
  | VString string
  | VRef addr

text \<open>
  An object carries its \<open>[[Class]]\<close> (what \<open>Object.prototype.toString\<close> reports), whether
  it is callable (what \<open>typeof\<close> reports as \<open>'function'\<close>), its \<open>[[Prototype]]\<close>, its
  \<open>[[PrimitiveValue]]\<close> (wrappers and dates) and its own properties in enumeration order,
  each a key, a value and the enumerable attribute.
\<close>

record obj =
  Class :: string
  callable :: bool
  proto :: val
  primitive :: val
  props :: "(string \<times> val \<times> bool) list"

type_synonym heap = "obj list"

text \<open>
  \<open>TypeError msg\<close> is the error thrown at line 163 of cyclone.js with its message;
  \<open>NativeTypeError\<close> is the TypeError the engine raises itself (a property read on
  \<open>null\<close>, a call of a value that is not a function); \<open>RangeError\<close> is raised by
  \<open>new Array(len)\<close> on a number that is no array length; \<open>HostError v\<close> is a value
  thrown by host-supplied code; \<open>Stuck\<close> marks a reference to no object, which no
  JavaScript program can hold.
\<close>

datatype error = TypeError string | NativeTypeError | RangeError | HostError val | Stuck

text \<open>
  Host-supplied code: the behaviour of every callable object (the \<open>detect\<close> and \<open>copy\<close>
  functions of custom procedures, \<open>cloneNode\<close> of platform nodes) as a function of the
  receiver, the arguments and the heap, which returns a value and a heap or throws; and
  the built-in prototype objects of the realm.
\<close>

record host =
  call :: "addr \<Rightarrow> val \<Rightarrow> val list \<Rightarrow> heap \<Rightarrow> error + val \<times> heap"
  StringProto :: val
  NumberProto :: val
  BooleanProto :: val
  DateProto :: val
  RegExpProto :: val
  ArrayProto :: val

definition obj_at :: "heap \<Rightarrow> addr \<Rightarrow> obj option" where
  "obj_at h a = (if a < length h then Some (h ! a) else None)"

definition typeof :: "heap \<Rightarrow> val \<Rightarrow> string" where
  "typeof h v =
     (case v of
        VUndefined \<Rightarrow> ''undefined''
      | VNull \<Rightarrow> ''object''
      | VBool _ \<Rightarrow> ''boolean''
      | VNumber _ \<Rightarrow> ''number''
      | VString _ \<Rightarrow> ''string''
      | VRef a \<Rightarrow>
          (case obj_at h a of
             Some ob \<Rightarrow> if callable ob then ''function'' else ''object''
           | None \<Rightarrow> ''object''))"

text \<open>\<open>ToBoolean\<close>: what an \<open>if\<close> tests.\<close>

definition truthy :: "val \<Rightarrow> bool" where
  "truthy v =
     (case v of
        VUndefined \<Rightarrow> False
      | VNull \<Rightarrow> False
      | VBool b \<Rightarrow> b
      | VNumber n \<Rightarrow> n \<noteq> NaN \<and> n \<noteq> Finite 0
      | VString s \<Rightarrow> s \<noteq> []
      | VRef _ \<Rightarrow> True)"

text \<open>The strict equality \<open>===\<close>: identity on references, and \<open>NaN\<close> equals nothing.\<close>

definition strict_equals :: "val \<Rightarrow> val \<Rightarrow> bool" where
  "strict_equals x y = (x \<noteq> VNumber NaN \<and> y \<noteq> VNumber NaN \<and> x = y)"

text \<open>
  Property reads: \<open>hasOwnProperty\<close> looks at the own properties, a read \<open>o[k]\<close> walks the
  prototype chain (which is no longer than the heap) and yields \<open>undefined\<close> when the key
  is found nowhere.
\<close>

definition hasOwnProperty :: "heap \<Rightarrow> val \<Rightarrow> string \<Rightarrow> bool" where
  "hasOwnProperty h v k =
     (case v of
        VRef a \<Rightarrow> (case obj_at h a of Some ob \<Rightarrow> map_of (props ob) k \<noteq> None | None \<Rightarrow> False)
      | _ \<Rightarrow> False)"

fun get_chain :: "nat \<Rightarrow> heap \<Rightarrow> val \<Rightarrow> string \<Rightarrow> val" where
  "get_chain 0 h v k = VUndefined"
| "get_chain (Suc n) h (VRef a) k =
     (case obj_at h a of
        None \<Rightarrow> VUndefined
      | Some ob \<Rightarrow>
          (case map_of (props ob) k of
             Some (v, e) \<Rightarrow> v
           | None \<Rightarrow> get_chain n h (proto ob) k))"
| "get_chain (Suc n) h v k = VUndefined"

definition Get :: "heap \<Rightarrow> val \<Rightarrow> string \<Rightarrow> val" where
  "Get h v k = get_chain (length h) h v k"

text \<open>
  An assignment \<open>o[k] = v\<close> to a plain data property: an existing own property keeps its
  place and its attributes, a new one is appended, enumerable.
\<close>

fun put_prop :: "(string \<times> val \<times> bool) list \<Rightarrow> string \<Rightarrow> val \<Rightarrow> (string \<times> val \<times> bool) list" where
  "put_prop [] k v = [(k, v, True)]"
| "put_prop ((k', v', e) # ps) k v =
     (if k' = k then (k, v, e) # ps else (k', v', e) # put_prop ps k v)"

definition Put :: "heap \<Rightarrow> val \<Rightarrow> string \<Rightarrow> val \<Rightarrow> heap" where
  "Put h target k v =
     (case target of
        VRef a \<Rightarrow>
          (case obj_at h a of
             Some ob \<Rightarrow> h[a := ob\<lparr>props := put_prop (props ob) k v\<rparr>]
           | None \<Rightarrow> h)
      | _ \<Rightarrow> h)"

text \<open>
  The keys a \<open>for (prop in o)\<close> loop visits: the enumerable own properties, then the
  enumerable properties of the prototype chain that no nearer object shadows.
\<close>

fun for_in_keys :: "nat \<Rightarrow> heap \<Rightarrow> val \<Rightarrow> string list \<Rightarrow> string list" where
  "for_in_keys 0 h v seen = []"
| "for_in_keys (Suc n) h (VRef a) seen =
     (case obj_at h a of
        None \<Rightarrow> []
      | Some ob \<Rightarrow>
          [k. (k, v, e) \<leftarrow> props ob, e, k \<notin> set seen]
            @ for_in_keys n h (proto ob) (seen @ map fst (props ob)))"
| "for_in_keys (Suc n) h v seen = []"

text \<open>
  A method call \<open>o.name(args)\<close> on an object: the property is read, and a value that is
  not a function cannot be called.
\<close>

definition call_method :: "host \<Rightarrow> heap \<Rightarrow> val \<Rightarrow> string \<Rightarrow> val list \<Rightarrow> error + val \<times> heap" where
  "call_method H h recv name args =
     (case Get h recv name of
        VRef f \<Rightarrow>
          if typeof h (VRef f) = ''function'' then call H f recv args h
          else Inl NativeTypeError
      | _ \<Rightarrow> Inl NativeTypeError)"

section \<open>The transfer map\<close>

text \<open>
  \<open>TransferMap\<close> (lines 36 to 63): two parallel arrays, \<open>inputs\<close> and \<open>outputs\<close>.
  \<open>Array.prototype.indexOf\<close> compares with \<open>===\<close> and answers \<open>-1\<close> when nothing is found.
\<close>

record TransferMap =
  inputs :: "val list"
  outputs :: "val list"

definition TransferMap_new :: TransferMap where
  "TransferMap_new = \<lparr>inputs = [], outputs = []\<rparr>"

fun indexOf_from :: "val list \<Rightarrow> val \<Rightarrow> int \<Rightarrow> int" where
  "indexOf_from [] v i = -1"
| "indexOf_from (x # xs) v i = (if strict_equals x v then i else indexOf_from xs v (i + 1))"

definition indexOf :: "val list \<Rightarrow> val \<Rightarrow> int" where
  "indexOf xs v = indexOf_from xs v 0"

text \<open>An array read \<open>xs[i]\<close>: \<open>undefined\<close> out of range.\<close>

definition array_get :: "val list \<Rightarrow> int \<Rightarrow> val" where
  "array_get xs i = (if 0 \<le> i \<and> nat i < length xs then xs ! nat i else VUndefined)"

definition TransferMap_set :: "TransferMap \<Rightarrow> val \<Rightarrow> val \<Rightarrow> TransferMap" where
  "TransferMap_set tMap input output =
     (if indexOf (inputs tMap) input = -1
      then tMap\<lparr>inputs := inputs tMap @ [input], outputs := outputs tMap @ [output]\<rparr>
      else tMap)"

definition TransferMap_get :: "TransferMap \<Rightarrow> val \<Rightarrow> val" where
  "TransferMap_get tMap input =
     (let idx = indexOf (inputs tMap) input;
          output = VNull
      in if idx > -1 then array_get (outputs tMap) idx else output)"

section \<open>Custom clone procedures\<close>

text \<open>
  \<open>_customCloneProcedures\<close> is the array of registered procedure objects. Only
  \<open>defineCloneProcedure\<close> pushes to it, and only values that passed
  \<open>typeof procObj === 'object'\<close> and whose properties could be read, that is references
  to objects: the registry is a list of addresses, the most recent registration last.

  \<open>defineCloneProcedure\<close> (lines 240 to 251). The conjunction is evaluated left to
  right: the read \<open>procObj.detect\<close> happens once \<open>typeof procObj === 'object'\<close> holds, and
  a property read on \<open>null\<close> throws.
\<close>

definition defineCloneProcedure ::
  "heap \<Rightarrow> addr list \<Rightarrow> val \<Rightarrow> error + bool \<times> addr list" where
  "defineCloneProcedure h procs procObj =
     (if typeof h procObj = ''object'' then
        (case procObj of
           VRef a \<Rightarrow>
             if typeof h (Get h procObj ''detect'') = ''function'' \<and>
                typeof h (Get h procObj ''copy'') = ''function''
             then Inr (True, procs @ [a])
             else Inr (False, procs)
         | _ \<Rightarrow> Inl NativeTypeError)
      else Inr (False, procs))"

definition clearCustomCloneProcedures :: "addr list \<Rightarrow> addr list" where
  "clearCustomCloneProcedures procs = []"

text \<open>
  \<open>_attemptCustomClone\<close> (lines 214 to 230). The loop \<open>while (procIdx--)\<close> runs its body
  with \<open>procIdx\<close> from \<open>length - 1\<close> down to \<open>0\<close>. What it does is recorded as a list of
  events: the \<open>console.log\<close> of line 221, the call of \<open>proc.detect\<close> of line 223 and the
  call of \<open>proc.copy\<close> of line 224, each with the index of the procedure. The result is the
  value of \<open>copy\<close> at the \<open>return\<close>, which is \<open>undefined\<close> when the loop ran out.
\<close>

datatype event = ConsoleLog nat | CallDetect nat | CallCopy nat

fun attemptCustomClone_loop ::
  "host \<Rightarrow> addr list \<Rightarrow> nat \<Rightarrow> val \<Rightarrow> heap \<Rightarrow> event list \<times> (error + val \<times> heap)" where
  "attemptCustomClone_loop H procs 0 ob h = ([], Inr (VUndefined, h))"
| "attemptCustomClone_loop H procs (Suc procIdx) ob h =
     (if procIdx < length procs then
        (let proc = VRef (procs ! procIdx) in
         case call_method H h proc ''detect'' [ob] of
           Inl e \<Rightarrow> ([ConsoleLog procIdx, CallDetect procIdx], Inl e)
         | Inr (d, h1) \<Rightarrow>
             if truthy d then
               (case call_method H h1 proc ''copy'' [ob] of
                  Inl e \<Rightarrow> ([ConsoleLog procIdx, CallDetect procIdx, CallCopy procIdx], Inl e)
                | Inr (copy, h2) \<Rightarrow>
                    ([ConsoleLog procIdx, CallDetect procIdx, CallCopy procIdx], Inr (copy, h2)))
             else
               (case attemptCustomClone_loop H procs procIdx ob h1 of
                  (evs, r) \<Rightarrow> (ConsoleLog procIdx # CallDetect procIdx # evs, r)))
      else ([ConsoleLog procIdx], Inl NativeTypeError))"

definition attemptCustomClone ::
  "host \<Rightarrow> addr list \<Rightarrow> val \<Rightarrow> heap \<Rightarrow> event list \<times> (error + val \<times> heap)" where
  "attemptCustomClone H procs ob h = attemptCustomClone_loop H procs (length procs) ob h"

section \<open>The structured clone\<close>

text \<open>
  The built-in \<open>valueOf\<close> of the object's class (line 106): the \<open>[[PrimitiveValue]]\<close> of a
  wrapper, the time value of a date, and the object itself for every other object.
  Objects are taken to inherit the built-in \<open>valueOf\<close> of their class and to be well formed
  (the \<open>[[PrimitiveValue]]\<close> of a String object is a string, of a Date a time value, the
  \<open>source\<close> of a RegExp is a pattern), so that the constructors of lines 122 to 134 and 194
  box the value they are given without converting it.
\<close>

definition valueOf :: "val \<Rightarrow> obj \<Rightarrow> val" where
  "valueOf input ob =
     (if Class ob \<in> {''String'', ''Number'', ''Boolean'', ''Date''} then primitive ob else input)"

text \<open>\<open>_toString(input)\<close> (line 107) is \<open>Object.prototype.toString.call(input)\<close>.\<close>

definition toString :: "obj \<Rightarrow> string" where
  "toString ob = ''[object '' @ Class ob @ '']''"

definition alloc :: "heap \<Rightarrow> obj \<Rightarrow> val \<times> heap" where
  "alloc h ob = (VRef (length h), h @ [ob])"

definition new_wrapper :: "string \<Rightarrow> val \<Rightarrow> heap \<Rightarrow> val \<Rightarrow> val \<times> heap" where
  "new_wrapper cls pr h v =
     alloc h \<lparr>Class = cls, callable = False, proto = pr, primitive = v, props = []\<rparr>"

text \<open>
  \<open>new RegExp(source, flags)\<close>: the flags of the new object are the characters of the
  flags string, and \<open>lastIndex\<close> starts at \<open>0\<close>.
\<close>

definition regexp_props :: "val \<Rightarrow> string \<Rightarrow> (string \<times> val \<times> bool) list" where
  "regexp_props source flags =
     [(''source'', source, False),
      (''global'', VBool (CHR ''g'' \<in> set flags), False),
      (''ignoreCase'', VBool (CHR ''i'' \<in> set flags), False),
      (''multiline'', VBool (CHR ''m'' \<in> set flags), False),
      (''sticky'', VBool (CHR ''y'' \<in> set flags), False),
      (''unicode'', VBool (CHR ''u'' \<in> set flags), False),
      (''lastIndex'', VNumber (Finite 0), False)]"

definition new_RegExp :: "host \<Rightarrow> heap \<Rightarrow> val \<Rightarrow> string \<Rightarrow> val \<times> heap" where
  "new_RegExp H h source flags =
     alloc h \<lparr>Class = ''RegExp'', callable = False, proto = RegExpProto H,
              primitive = VUndefined, props = regexp_props source flags\<rparr>"

text \<open>\<open>_handleRegExpClone\<close> (lines 182 to 195).\<close>

definition regExpFlags :: "heap \<Rightarrow> val \<Rightarrow> string" where
  "regExpFlags h re =
     (let flags0 = [];
          flags1 = (if truthy (Get h re ''global'') then flags0 @ ''g'' else flags0);
          flags2 = (if truthy (Get h re ''ignoreCase'') then flags1 @ ''i'' else flags1);
          flags3 = (if truthy (Get h re ''multiline'') then flags2 @ ''m'' else flags2)
      in flags3)"

definition handleRegExpClone :: "host \<Rightarrow> heap \<Rightarrow> val \<Rightarrow> val \<times> heap" where
  "handleRegExpClone H h re = new_RegExp H h (Get h re ''source'') (regExpFlags h re)"

text \<open>
  \<open>new Array(len)\<close>: a number that is an array length gives an empty array of that
  length, any other number a RangeError, and a value that is not a number an array holding
  that value.
\<close>

definition is_array_length :: "jsnum \<Rightarrow> bool" where
  "is_array_length n =
     (case n of Finite r \<Rightarrow> 0 \<le> r \<and> r < 4294967296 \<and> r = of_int \<lfloor>r\<rfloor> | _ \<Rightarrow> False)"

definition new_Array :: "host \<Rightarrow> heap \<Rightarrow> val \<Rightarrow> error + val \<times> heap" where
  "new_Array H h len =
     (case len of
        VNumber n \<Rightarrow>
          if is_array_length n then
            Inr (alloc h \<lparr>Class = ''Array'', callable = False, proto = ArrayProto H,
                          primitive = VUndefined, props = [(''length'', len, False)]\<rparr>)
          else Inl RangeError
      | _ \<Rightarrow>
          Inr (alloc h \<lparr>Class = ''Array'', callable = False, proto = ArrayProto H,
                        primitive = VUndefined,
                        props = [(''0'', len, True), (''length'', VNumber (Finite 1), False)]\<rparr>))"

text \<open>\<open>Object.create(Object.getPrototypeOf(input))\<close> (line 151).\<close>

definition Object_create :: "heap \<Rightarrow> val \<Rightarrow> val \<times> heap" where
  "Object_create h pr =
     alloc h \<lparr>Class = ''Object'', callable = False, proto = pr, primitive = VUndefined,
              props = []\<rparr>"

text \<open>
  \<open>_htmlElementRE.test\<close> (line 66): the string is \<open>[object\<close>, one white space character,
  \<open>HTML\<close>, any characters but line terminators, and \<open>Element]\<close>.
\<close>

definition htmlElementRE_test :: "string \<Rightarrow> bool" where
  "htmlElementRE_test s =
     (20 \<le> length s \<and>
      take 7 s = ''[object'' \<and>
      s ! 7 \<in> {CHR '' '', CHR 0x09, CHR 0x0A, CHR 0x0B, CHR 0x0C, CHR 0x0D} \<and>
      take 4 (drop 8 s) = ''HTML'' \<and>
      list_all (\<lambda>c. c \<noteq> CHR 0x0A \<and> c \<noteq> CHR 0x0D) (take (length s - 20) (drop 12 s)) \<and>
      drop (length s - 8) s = ''Element]'')"

text \<open>
  The \<open>switch (obType)\<close> of lines 114 to 167: the new object, whether it is a collection,
  and the heap; or the error thrown.
\<close>

definition switch_obType :: "host \<Rightarrow> heap \<Rightarrow> val \<Rightarrow> obj \<Rightarrow> error + val \<times> bool \<times> heap" where
  "switch_obType H h input ob =
     (let val = valueOf input ob;
          obType = toString ob
      in if obType = ''[object String]'' then
           (case new_wrapper ''String'' (StringProto H) h val of (output, h') \<Rightarrow> Inr (output, False, h'))
         else if obType = ''[object Number]'' then
           (case new_wrapper ''Number'' (NumberProto H) h val of (output, h') \<Rightarrow> Inr (output, False, h'))
         else if obType = ''[object Boolean]'' then
           (case new_wrapper ''Boolean'' (BooleanProto H) h val of (output, h') \<Rightarrow> Inr (output, False, h'))
         else if obType = ''[object Date]'' then
           (case new_wrapper ''Date'' (DateProto H) h val of (output, h') \<Rightarrow> Inr (output, False, h'))
         else if obType = ''[object RegExp]'' then
           (case handleRegExpClone H h val of (output, h') \<Rightarrow> Inr (output, False, h'))
         else if obType = ''[object Array]'' then
           (case new_Array H h (Get h input ''length'') of
              Inl e \<Rightarrow> Inl e
            | Inr (output, h') \<Rightarrow> Inr (output, True, h'))
         else if obType = ''[object Object]'' then
           (case Object_create h (proto ob) of (output, h') \<Rightarrow> Inr (output, True, h'))
         else if htmlElementRE_test obType \<and> typeof h (Get h input ''cloneNode'') = ''function'' then
           (case call_method H h input ''cloneNode'' [] of
              Inl e \<Rightarrow> Inl e
            | Inr (output, h') \<Rightarrow> Inr (output, False, h'))
         else Inl (TypeError (''Don't know how to clone object of type '' @ obType)))"

text \<open>
  \<open>_iSClone\<close> (lines 73 to 83), \<open>_handleObjectClone\<close> (lines 88 to 177) and
  \<open>_handleCollectionClone\<close> (lines 198 to 212) call each other. Host code may change the
  heap under the clone, so the recursion need not end: the depth of nested
  \<open>_handleObjectClone\<close> calls is bounded by a fuel, and \<open>None\<close> says that the fuel ran out.
  The state is the transfer map and the heap.

  \<open>handleObjectClone_shell\<close> is \<open>_handleObjectClone\<close> up to line 170, where no recursive call
  is made: the early returns of lines 92 and 100, the switch and \<open>tMap.set\<close>. It yields the
  output, whether line 173 is to run, the transfer map and the heap.
\<close>

definition handleObjectClone_shell ::
  "host \<Rightarrow> addr list \<Rightarrow> val \<Rightarrow> TransferMap \<Rightarrow> heap \<Rightarrow> error + val \<times> bool \<times> TransferMap \<times> heap" where
  "handleObjectClone_shell H procs input tMap h =
     (let selfRef = TransferMap_get tMap input
      in if selfRef \<noteq> VNull then Inr (selfRef, False, tMap, h)
         else
           (case snd (attemptCustomClone H procs input h) of
              Inl e \<Rightarrow> Inl e
            | Inr (cloneAttempt, h1) \<Rightarrow>
                if typeof h1 cloneAttempt \<noteq> ''undefined'' then Inr (cloneAttempt, False, tMap, h1)
                else
                  (case input of
                     VRef a \<Rightarrow>
                       (case obj_at h1 a of
                          None \<Rightarrow> Inl Stuck
                        | Some ob \<Rightarrow>
                            (case switch_obType H h1 input ob of
                               Inl e \<Rightarrow> Inl e
                             | Inr (output, isCollection, h2) \<Rightarrow>
                                 Inr (output, isCollection, TransferMap_set tMap input output, h2)))
                   | _ \<Rightarrow> Inl Stuck)))"

text \<open>
  The \<open>for (prop in input)\<close> loop runs over the keys found when it starts; its body reads
  the heap as it is then.
\<close>

type_synonym 'a outcome = "(error + 'a \<times> TransferMap \<times> heap) option"

function (sequential) iSClone :: "host \<Rightarrow> addr list \<Rightarrow> nat \<Rightarrow> val \<Rightarrow> TransferMap \<Rightarrow> heap \<Rightarrow> val outcome"
and handleObjectClone :: "host \<Rightarrow> addr list \<Rightarrow> nat \<Rightarrow> val \<Rightarrow> TransferMap \<Rightarrow> heap \<Rightarrow> val outcome"
and handleCollectionClone ::
  "host \<Rightarrow> addr list \<Rightarrow> nat \<Rightarrow> string list \<Rightarrow> val \<Rightarrow> val \<Rightarrow> TransferMap \<Rightarrow> heap \<Rightarrow> unit outcome"
where
  "iSClone H procs fuel input tMap h =
     (if input = VNull then Some (Inr (VNull, tMap, h))
      else if typeof h input = ''object'' then
        (case fuel of
           0 \<Rightarrow> None
         | Suc n \<Rightarrow> handleObjectClone H procs n input tMap h)
      else Some (Inr (input, tMap, h)))"
| "handleObjectClone H procs fuel input tMap h =
     (case handleObjectClone_shell H procs input tMap h of
        Inl e \<Rightarrow> Some (Inl e)
      | Inr (output, isCollection, tMap2, h2) \<Rightarrow>
          if isCollection then
            (case handleCollectionClone H procs fuel
                    (for_in_keys (length h2) h2 input []) input output tMap2 h2 of
               None \<Rightarrow> None
             | Some (Inl e) \<Rightarrow> Some (Inl e)
             | Some (Inr (u, tMap3, h3)) \<Rightarrow> Some (Inr (output, tMap3, h3)))
          else Some (Inr (output, tMap2, h2)))"
| "handleCollectionClone H procs fuel [] input output tMap h = Some (Inr ((), tMap, h))"
| "handleCollectionClone H procs fuel (prop # rest) input output tMap h =
     (if hasOwnProperty h input prop then
        (case iSClone H procs fuel (Get h input prop) tMap h of
           None \<Rightarrow> None
         | Some (Inl e) \<Rightarrow> Some (Inl e)
         | Some (Inr (v, tMap1, h1)) \<Rightarrow>
             handleCollectionClone H procs fuel rest input output tMap1 (Put h1 output prop v))
      else handleCollectionClone H procs fuel rest input output tMap h)"
  by pat_completeness auto

termination
  by (relation "inv_image (less_than <*lex*> less_than <*lex*> less_than)
        (\<lambda>x. case x of
           Inl (H, procs, fuel, input, tMap, h) \<Rightarrow> (fuel, 0::nat, 0::nat)
         | Inr (Inl (H, procs, fuel, input, tMap, h)) \<Rightarrow> (fuel, 2, 0)
         | Inr (Inr (H, procs, fuel, keys, input, output, tMap, h)) \<Rightarrow> (fuel, 1, length keys))")
     auto

text \<open>\<open>CY.clone\<close> (lines 235 to 237): a fresh transfer map, dropped at the end.\<close>

definition clone :: "host \<Rightarrow> addr list \<Rightarrow> nat \<Rightarrow> heap \<Rightarrow> val \<Rightarrow> (error + val \<times> heap) option" where
  "clone H procs fuel h input =
     (case iSClone H procs fuel input TransferMap_new h of
        None \<Rightarrow> None
      | Some (Inl e) \<Rightarrow> Some (Inl e)
      | Some (Inr (output, tMap, h')) \<Rightarrow> Some (Inr (output, h')))"
section \<open>Notions the claims are stated with\<close>

text \<open>The transfer map after a sequence of \<open>set\<close> calls on a new map.\<close>

definition TransferMap_sets :: "(val \<times> val) list \<Rightarrow> TransferMap" where
  "TransferMap_sets calls =
     foldl (\<lambda>tMap (input, output). TransferMap_set tMap input output) TransferMap_new calls"

text \<open>
  The detector of the procedure at \<open>p\<close> answers false for \<open>ob\<close> and leaves the heap as it
  was.
\<close>

definition rejects :: "host \<Rightarrow> heap \<Rightarrow> addr \<Rightarrow> val \<Rightarrow> bool" where
  "rejects H h p ob =
     (case call_method H h (VRef p) ''detect'' [ob] of
        Inl e \<Rightarrow> False
      | Inr (d, h') \<Rightarrow> \<not> truthy d \<and> h' = h)"

text \<open>The events of a scan that passes over the procedures \<open>lo, ..., hi - 1\<close>, from the last.\<close>

definition passed_over :: "nat \<Rightarrow> nat \<Rightarrow> event list" where
  "passed_over lo hi = concat (map (\<lambda>i. [ConsoleLog i, CallDetect i]) (rev [lo..<hi]))"

text \<open>
  Host code that allocates and does not write to the objects that exist: the heap it
  returns extends the heap it was given.
\<close>

definition host_frame :: "host \<Rightarrow> bool" where
  "host_frame H = (\<forall>f this args h v h'. call H f this args h = Inr (v, h') \<longrightarrow> prefix h h')"

text \<open>
  No registered procedure takes \<open>v\<close>: in the heap \<open>h\<close> and in every heap that extends it,
  \<open>_attemptCustomClone\<close> returns \<open>undefined\<close> and leaves the heap as it was.
\<close>

definition no_match :: "host \<Rightarrow> addr list \<Rightarrow> heap \<Rightarrow> val \<Rightarrow> bool" where
  "no_match H procs h v =
     (\<forall>h'. prefix h h' \<longrightarrow> snd (attemptCustomClone H procs v h') = Inr (VUndefined, h'))"




text \<open>
  Structural equality of a value \<open>y\<close> in a heap \<open>g\<close> and a value \<open>z\<close> in a heap \<open>g'\<close>: a
  one-to-one correspondence \<open>R\<close> of objects relates \<open>y\<close> to \<open>z\<close>, and related objects have
  the same class, related prototypes and primitive values, and the same own properties
  with the same attributes and related values, member for member. Values are related when
  they are the same primitive or references to related objects; so shared and cyclic
  references on one side are shared and cyclic on the other.
\<close>

definition val_rel :: "(addr \<times> addr) set \<Rightarrow> val \<Rightarrow> val \<Rightarrow> bool" where
  "val_rel R v w = (case (v, w) of (VRef a, VRef b) \<Rightarrow> (a, b) \<in> R | _ \<Rightarrow> v = w)"

definition obj_rel :: "(addr \<times> addr) set \<Rightarrow> obj \<Rightarrow> obj \<Rightarrow> bool" where
  "obj_rel R ob ob' =
     (Class ob = Class ob' \<and> callable ob = callable ob' \<and>
      val_rel R (proto ob) (proto ob') \<and> val_rel R (primitive ob) (primitive ob') \<and>
      (\<forall>k. rel_option (\<lambda>(v, e) (w, e'). val_rel R v w \<and> e = e')
             (map_of (props ob) k) (map_of (props ob') k)))"

definition structurally_equal :: "heap \<Rightarrow> val \<Rightarrow> heap \<Rightarrow> val \<Rightarrow> bool" where
  "structurally_equal g y g' z =
     (\<exists>R. val_rel R y z \<and> single_valued R \<and> single_valued (R\<inverse>) \<and>
          (\<forall>(a, b) \<in> R. a < length g \<and> b < length g' \<and> obj_rel R (g ! a) (g' ! b)))"

text \<open>
  A heap is well formed for a realm when every reference in it (in properties, prototypes
  and primitive values, and the realm's prototypes) points into it, no object is a platform
  node, and every array has its own \<open>length\<close>, an array length that is not enumerable.
\<close>

definition val_ok :: "nat \<Rightarrow> val \<Rightarrow> bool" where
  "val_ok n v = (case v of VRef b \<Rightarrow> b < n | _ \<Rightarrow> True)"

definition realm_proto :: "host \<Rightarrow> string \<Rightarrow> val" where
  "realm_proto H cls =
     (if cls = ''String'' then StringProto H
      else if cls = ''Number'' then NumberProto H
      else if cls = ''Boolean'' then BooleanProto H
      else if cls = ''Date'' then DateProto H
      else if cls = ''RegExp'' then RegExpProto H
      else ArrayProto H)"

definition array_ok :: "obj \<Rightarrow> bool" where
  "array_ok ob = (\<exists>n. is_array_length n \<and> map_of (props ob) ''length'' = Some (VNumber n, False))"

definition wf_heap :: "host \<Rightarrow> heap \<Rightarrow> bool" where
  "wf_heap H h =
     ((\<forall>ob \<in> set h.
         val_ok (length h) (proto ob) \<and> val_ok (length h) (primitive ob) \<and>
         (\<forall>(k, v, e) \<in> set (props ob). val_ok (length h) v) \<and>
         \<not> htmlElementRE_test (toString ob) \<and>
         (Class ob = ''Array'' \<longrightarrow> array_ok ob)) \<and>
      (\<forall>cls. val_ok (length h) (realm_proto H cls)))"

text \<open>
  What the clone makes. A value is a result value when it is a primitive, a function of
  the initial heap \<open>h0\<close>, or an object allocated since (below the bound \<open>L\<close>); an object is
  good when it has the shape the switch and the member loop give a new object.
\<close>

definition sval :: "heap \<Rightarrow> nat \<Rightarrow> val \<Rightarrow> bool" where
  "sval h0 L v =
     (case v of
        VRef b \<Rightarrow> (length h0 \<le> b \<and> b < L) \<or> (b < length h0 \<and> callable (h0 ! b))
      | _ \<Rightarrow> True)"

definition good_obj :: "host \<Rightarrow> heap \<Rightarrow> nat \<Rightarrow> obj \<Rightarrow> bool" where
  "good_obj H h0 L ob =
     (\<not> callable ob \<and> val_ok (length h0) (proto ob) \<and> val_ok (length h0) (primitive ob) \<and>
      distinct (map fst (props ob)) \<and>
      (if Class ob \<in> {''String'', ''Number'', ''Boolean'', ''Date''} then
         proto ob = realm_proto H (Class ob) \<and> props ob = []
       else if Class ob = ''RegExp'' then
         proto ob = RegExpProto H \<and> primitive ob = VUndefined \<and>
         (\<exists>src fl. val_ok (length h0) src \<and> set fl \<subseteq> {CHR ''g'', CHR ''i'', CHR ''m''} \<and>
                   props ob = regexp_props src fl)
       else if Class ob = ''Array'' then
         proto ob = ArrayProto H \<and> primitive ob = VUndefined \<and> array_ok ob \<and>
         (\<forall>(k, v, e) \<in> set (props ob). k \<noteq> ''length'' \<longrightarrow> e \<and> sval h0 L v)
       else
         Class ob = ''Object'' \<and> primitive ob = VUndefined \<and>
         (\<forall>(k, v, e) \<in> set (props ob). e \<and> sval h0 L v)))"

section \<open>Concrete inputs\<close>

text \<open>
  A heap with \<open>Object.prototype\<close> at address 0, five host functions (a detector that
  answers true, and copy functions that answer \<open>'first'\<close>, \<open>'second'\<close>, \<open>undefined\<close> and
  \<open>null\<close>), four procedure objects built from them, an empty record, a function that
  carries a \<open>detect\<close> and a \<open>copy\<close> property itself, a detector that answers false and a
  procedure object built from it.
\<close>

definition fn_obj :: "(string \<times> val \<times> bool) list \<Rightarrow> obj" where
  "fn_obj ps = \<lparr>Class = ''Function'', callable = True, proto = VRef 0, primitive = VUndefined, props = ps\<rparr>"

definition record_obj :: "(string \<times> val \<times> bool) list \<Rightarrow> obj" where
  "record_obj ps = \<lparr>Class = ''Object'', callable = False, proto = VRef 0, primitive = VUndefined, props = ps\<rparr>"

definition ex_heap :: heap where
  "ex_heap =
     [\<lparr>Class = ''Object'', callable = False, proto = VNull, primitive = VUndefined, props = []\<rparr>,
      fn_obj [], fn_obj [], fn_obj [], fn_obj [], fn_obj [],
      record_obj [(''detect'', VRef 1, True), (''copy'', VRef 2, True)],
      record_obj [(''detect'', VRef 1, True), (''copy'', VRef 3, True)],
      record_obj [(''detect'', VRef 1, True), (''copy'', VRef 4, True)],
      record_obj [(''detect'', VRef 1, True), (''copy'', VRef 5, True)],
      record_obj [],
      fn_obj [(''detect'', VRef 1, True), (''copy'', VRef 2, True)],
      fn_obj [],
      record_obj [(''detect'', VRef 12, True), (''copy'', VRef 2, True)]]"

definition ex_call :: "addr \<Rightarrow> val \<Rightarrow> val list \<Rightarrow> heap \<Rightarrow> error + val \<times> heap" where
  "ex_call f this args h =
     (if f = 1 then Inr (VBool True, h)
      else if f = 2 then Inr (VString ''first'', h)
      else if f = 3 then Inr (VString ''second'', h)
      else if f = 4 then Inr (VUndefined, h)
      else if f = 5 then Inr (VNull, h)
      else if f = 12 then Inr (VBool False, h)
      else Inl (HostError VUndefined))"

definition ex_host :: host where
  "ex_host = \<lparr>call = ex_call, StringProto = VRef 0, NumberProto = VRef 0, BooleanProto = VRef 0,
               DateProto = VRef 0, RegExpProto = VRef 0, ArrayProto = VRef 0\<rparr>"

text \<open>
  The transfer map is well formed when its arrays are parallel; \<open>tm_le\<close> says that a map
  has grown out of another by appending; an input is settled in a map when it is not
  registered, or registered with an object at address \<open>N\<close> or later as its output.
\<close>

definition tm_ok :: "TransferMap \<Rightarrow> bool" where
  "tm_ok tMap = (length (inputs tMap) = length (outputs tMap))"

definition tm_le :: "TransferMap \<Rightarrow> TransferMap \<Rightarrow> bool" where
  "tm_le tMap tMap' = (prefix (inputs tMap) (inputs tMap') \<and> prefix (outputs tMap) (outputs tMap'))"

definition registered :: "TransferMap \<Rightarrow> val \<Rightarrow> bool" where
  "registered tMap x = (indexOf (inputs tMap) x \<noteq> -1)"







text \<open>
  The setting of the idempotence claim: host code that does not write to existing objects,
  a well-formed heap, and no custom procedure that takes anything. The invariant of a
  clone under way from the heap \<open>h0\<close>: the heap extends \<open>h0\<close>, the transfer map is well
  formed, its outputs are the objects allocated since, in order, and these are good.
\<close>

definition plain_run :: "host \<Rightarrow> addr list \<Rightarrow> heap \<Rightarrow> bool" where
  "plain_run H procs h0 = (host_frame H \<and> wf_heap H h0 \<and> (\<forall>v. no_match H procs h0 v))"

definition inv1 :: "host \<Rightarrow> heap \<Rightarrow> TransferMap \<Rightarrow> heap \<Rightarrow> bool" where
  "inv1 H h0 tMap h =
     (prefix h0 h \<and> tm_ok tMap \<and> outputs tMap = map VRef [length h0..<length h] \<and>
      (\<forall>b. length h0 \<le> b \<and> b < length h \<longrightarrow> good_obj H h0 (length h) (h ! b)))"

text \<open>
  Notions for the clone of a clone. A value is an object for the dispatcher when it is not
  \<open>null\<close> and its \<open>typeof\<close> is \<open>'object'\<close>; the image of a value under a transfer map is its
  output for an object and the value itself otherwise; an object is a copy of a source
  under a transfer map when it has the class, prototype and primitive value of the source
  and, for a collection, the images of the members of the source as its members, and for
  any other object the source's own properties.
\<close>

definition is_obj :: "heap \<Rightarrow> val \<Rightarrow> bool" where
  "is_obj g v = (v \<noteq> VNull \<and> typeof g v = ''object'')"

definition img :: "TransferMap \<Rightarrow> heap \<Rightarrow> val \<Rightarrow> val" where
  "img tMap g v = (if is_obj g v then TransferMap_get tMap v else v)"

definition copy_rel :: "TransferMap \<Rightarrow> heap \<Rightarrow> obj \<Rightarrow> obj \<Rightarrow> bool" where
  "copy_rel tMap g src dst =
     (Class dst = Class src \<and> callable dst = callable src \<and> proto dst = proto src \<and>
      primitive dst = primitive src \<and>
      (if Class src \<in> {''Array'', ''Object''} then
         (\<forall>k. rel_option (\<lambda>(v, e) (w, e'). w = img tMap g v \<and> e' = e \<and> (is_obj g v \<longrightarrow> registered tMap v))
                (map_of (props src) k) (map_of (props dst) k))
       else props dst = props src))"

definition completed :: "TransferMap \<Rightarrow> heap \<Rightarrow> nat \<Rightarrow> heap \<Rightarrow> nat \<Rightarrow> bool" where
  "completed tMap g N h j =
     (\<exists>s d. inputs tMap ! j = VRef s \<and> outputs tMap ! j = VRef d \<and> N \<le> s \<and> s < length g \<and>
            d < length h \<and> copy_rel tMap g (g ! s) (h ! d))"

definition unreg :: "nat \<Rightarrow> nat \<Rightarrow> TransferMap \<Rightarrow> nat" where
  "unreg N M tMap = card {s. N \<le> s \<and> s < M \<and> \<not> registered tMap (VRef s)}"

section \<open>The transfer map records an input once\<close>

lemma strict_equals_eq: "strict_equals x y \<Longrightarrow> x = y"
  by (simp add: strict_equals_def)

lemma strict_equals_ref [simp]: "strict_equals (VRef a) v = (v = VRef a)"
  by (auto simp: strict_equals_def)

lemma indexOf_from_char:
  "indexOf_from xs v k =
     (if \<exists>x \<in> set xs. strict_equals x v
      then k + int (length (takeWhile (\<lambda>x. \<not> strict_equals x v) xs)) else -1)"
  by (induction xs arbitrary: k) auto

lemma indexOf_char:
  "indexOf xs v =
     (if \<exists>x \<in> set xs. strict_equals x v
      then int (length (takeWhile (\<lambda>x. \<not> strict_equals x v) xs)) else -1)"
  by (simp add: indexOf_def indexOf_from_char)

lemma indexOf_absent: "(indexOf xs v = -1) = (\<forall>x \<in> set xs. \<not> strict_equals x v)"
  by (simp add: indexOf_char)

lemma indexOf_present: "(indexOf xs v > -1) = (\<exists>x \<in> set xs. strict_equals x v)"
  by (simp add: indexOf_char)

lemma takeWhile_lt: "\<exists>x \<in> set xs. \<not> P x \<Longrightarrow> length (takeWhile P xs) < length xs"
  by (induction xs) auto

lemma find_snoc:
  "find P (xs @ [x]) = (case find P xs of Some y \<Rightarrow> Some y | None \<Rightarrow> if P x then Some x else None)"
  by (induction xs) auto

lemma TransferMap_get_char:
  "length (inputs tm) = length (outputs tm) \<Longrightarrow>
   TransferMap_get tm v =
     (if \<exists>x \<in> set (inputs tm). strict_equals x v
      then outputs tm ! length (takeWhile (\<lambda>x. \<not> strict_equals x v) (inputs tm)) else VNull)"
proof -
  assume len: "length (inputs tm) = length (outputs tm)"
  have "length (takeWhile (\<lambda>x. \<not> strict_equals x v) (inputs tm)) < length (inputs tm)"
    if "\<exists>x \<in> set (inputs tm). strict_equals x v"
    using that by (simp add: takeWhile_lt)
  then show ?thesis
    using len by (auto simp: TransferMap_get_def indexOf_char array_get_def Let_def)
qed

lemma TransferMap_set_length:
  "length (inputs tm) = length (outputs tm) \<Longrightarrow>
   length (inputs (TransferMap_set tm i out)) = length (outputs (TransferMap_set tm i out))"
  by (simp add: TransferMap_set_def)

lemma TransferMap_get_set:
  assumes "length (inputs tm) = length (outputs tm)"
  shows "TransferMap_get (TransferMap_set tm i out) v =
     (if indexOf (inputs tm) v > -1 then TransferMap_get tm v
      else if strict_equals i v then out else VNull)"
proof (cases "indexOf (inputs tm) i = -1")
  case False
  then have "TransferMap_set tm i out = tm" by (simp add: TransferMap_set_def)
  moreover have "indexOf (inputs tm) v > -1" if "strict_equals i v"
    using that False strict_equals_eq[OF that] by (auto simp: indexOf_char split: if_splits)
  moreover have "TransferMap_get tm v = VNull" if "\<not> indexOf (inputs tm) v > -1"
    using that by (simp add: TransferMap_get_def Let_def)
  ultimately show ?thesis by auto
next
  case True
  let ?P = "\<lambda>x. \<not> strict_equals x v"
  let ?tm = "TransferMap_set tm i out"
  have s: "inputs ?tm = inputs tm @ [i]" "outputs ?tm = outputs tm @ [out]"
    using True by (simp_all add: TransferMap_set_def)
  have len: "length (inputs ?tm) = length (outputs ?tm)" using assms s by simp
  show ?thesis
  proof (cases "\<exists>x \<in> set (inputs tm). strict_equals x v")
    case found: True
    then have lt: "length (takeWhile ?P (inputs tm)) < length (outputs tm)"
      using assms takeWhile_lt[of "inputs tm" ?P] by simp
    have "takeWhile ?P (inputs tm @ [i]) = takeWhile ?P (inputs tm)"
      using found by (auto simp: takeWhile_append1)
    then show ?thesis
      using found lt assms
      by (simp add: TransferMap_get_char[OF len] TransferMap_get_char[OF assms] s indexOf_present nth_append)
  next
    case nf: False
    then have "takeWhile ?P (inputs tm @ [i]) = inputs tm @ takeWhile ?P [i]"
      by (auto simp: takeWhile_append2)
    then show ?thesis
      using nf assms
      by (auto simp: TransferMap_get_char[OF len] s indexOf_present nth_append)
  qed
qed

lemma TransferMap_sets_snoc:
  "TransferMap_sets (calls @ [(i, out)]) = TransferMap_set (TransferMap_sets calls) i out"
  by (simp add: TransferMap_sets_def)

lemma TransferMap_sets_inv:
  "length (inputs (TransferMap_sets calls)) = length (outputs (TransferMap_sets calls)) \<and>
   (\<forall>v. (indexOf (inputs (TransferMap_sets calls)) v > -1) = (\<exists>c \<in> set calls. strict_equals (fst c) v)) \<and>
   (\<forall>v. TransferMap_get (TransferMap_sets calls) v =
      (case find (\<lambda>c. strict_equals (fst c) v) calls of Some c \<Rightarrow> snd c | None \<Rightarrow> VNull)) \<and>
   distinct [v \<leftarrow> inputs (TransferMap_sets calls). v \<noteq> VNumber NaN]"
proof (induction calls rule: rev_induct)
  case Nil
  show ?case
    by (simp add: TransferMap_sets_def TransferMap_new_def TransferMap_get_def indexOf_def)
next
  case (snoc c calls)
  obtain i out where c: "c = (i, out)" by (cases c)
  let ?tm = "TransferMap_sets calls"
  note IH = snoc.IH
  have len: "length (inputs ?tm) = length (outputs ?tm)" using IH by simp
  have 1: "length (inputs (TransferMap_set ?tm i out)) = length (outputs (TransferMap_set ?tm i out))"
    by (rule TransferMap_set_length[OF len])
  have 2: "(indexOf (inputs (TransferMap_set ?tm i out)) v > -1) = (\<exists>c \<in> set (calls @ [(i, out)]). strict_equals (fst c) v)" for v
    using IH by (auto simp: TransferMap_set_def indexOf_present indexOf_absent dest: strict_equals_eq)
  have 3: "TransferMap_get (TransferMap_set ?tm i out) v =
      (case find (\<lambda>c. strict_equals (fst c) v) (calls @ [(i, out)]) of Some c \<Rightarrow> snd c | None \<Rightarrow> VNull)" for v
  proof (cases "find (\<lambda>c. strict_equals (fst c) v) calls")
    case None
    then have "\<not> (\<exists>c \<in> set calls. strict_equals (fst c) v)" by (auto simp: find_None_iff)
    then have "\<not> indexOf (inputs ?tm) v > -1" using IH by blast
    then show ?thesis using None by (simp add: TransferMap_get_set[OF len] find_snoc)
  next
    case (Some c')
    then have "\<exists>c \<in> set calls. strict_equals (fst c) v"
      by (metis find_None_iff option.distinct(1))
    then have "indexOf (inputs ?tm) v > -1" using IH by blast
    moreover have "TransferMap_get ?tm v = snd c'" using IH Some by simp
    ultimately show ?thesis using Some by (simp add: TransferMap_get_set[OF len] find_snoc)
  qed
  have 4: "distinct [v \<leftarrow> inputs (TransferMap_set ?tm i out). v \<noteq> VNumber NaN]"
    using IH by (auto simp: TransferMap_set_def indexOf_absent strict_equals_def)
  show ?case unfolding c TransferMap_sets_snoc using 1 2 3 4 by blast
qed

text \<open>
  C8: the transfer map records each original identity at most once. A \<open>set\<close> call for an
  input that \<open>indexOf\<close> finds in the map changes nothing, a \<open>set\<close> call keeps \<open>inputs\<close> and
  \<open>outputs\<close> of the same length, and after any sequence of \<open>set\<close> calls on a new map the two
  arrays have the same length, no value is twice among the inputs (\<open>NaN\<close> apart, which
  \<open>===\<close> finds equal to nothing and the clone never registers: its inputs are objects), and
  \<open>get\<close> answers the output of the first call made for that input, or \<open>null\<close> when there
  was none.
\<close>

theorem C8_first_write_wins:
  "(indexOf (inputs tMap) input \<noteq> -1 \<longrightarrow> TransferMap_set tMap input output = tMap) \<and>
   (length (inputs tMap) = length (outputs tMap) \<longrightarrow>
      length (inputs (TransferMap_set tMap input output)) =
      length (outputs (TransferMap_set tMap input output))) \<and>
   length (inputs (TransferMap_sets calls)) = length (outputs (TransferMap_sets calls)) \<and>
   distinct [v \<leftarrow> inputs (TransferMap_sets calls). v \<noteq> VNumber NaN] \<and>
   TransferMap_get (TransferMap_sets calls) x =
     (case find (\<lambda>c. strict_equals (fst c) x) calls of Some c \<Rightarrow> snd c | None \<Rightarrow> VNull)"
proof -
  have "indexOf (inputs tMap) input \<noteq> -1 \<longrightarrow> TransferMap_set tMap input output = tMap"
    by (simp add: TransferMap_set_def)
  moreover have "length (inputs tMap) = length (outputs tMap) \<longrightarrow>
      length (inputs (TransferMap_set tMap input output)) =
      length (outputs (TransferMap_set tMap input output))"
    by (simp add: TransferMap_set_length)
  ultimately show ?thesis
    using TransferMap_sets_inv[of calls] by blast
qed

theorem C8_first_write_wins_witness:
  "indexOf (inputs (TransferMap_sets [(VRef 1, VRef 5)])) (VRef 1) \<noteq> -1 \<and>
   TransferMap_set (TransferMap_sets [(VRef 1, VRef 5)]) (VRef 1) (VRef 7) =
     TransferMap_sets [(VRef 1, VRef 5)] \<and>
   length (inputs (TransferMap_sets [(VRef 1, VRef 5)])) =
     length (outputs (TransferMap_sets [(VRef 1, VRef 5)])) \<and>
   TransferMap_get (TransferMap_sets [(VRef 1, VRef 5), (VRef 2, VRef 6), (VRef 1, VRef 7)]) (VRef 1) =
     VRef 5"
proof -
  have p: "indexOf (inputs (TransferMap_sets [(VRef 1, VRef 5)])) (VRef 1) \<noteq> -1"
    by (simp add: TransferMap_sets_def TransferMap_set_def TransferMap_new_def indexOf_def)
  have l: "length (inputs (TransferMap_sets [(VRef 1, VRef 5)])) =
     length (outputs (TransferMap_sets [(VRef 1, VRef 5)]))"
    by (simp add: TransferMap_sets_def TransferMap_set_def TransferMap_new_def indexOf_def)
  show ?thesis
    using p l
      C8_first_write_wins[of "TransferMap_sets [(VRef 1, VRef 5)]" "VRef 1" "VRef 7"
        "[(VRef 1, VRef 5), (VRef 2, VRef 6), (VRef 1, VRef 7)]" "VRef 1"]
    by simp
qed

section \<open>Registration of custom procedures\<close>

text \<open>
  On \<open>null\<close> the test \<open>typeof procObj === 'object'\<close> holds and the read of
  \<open>procObj.detect\<close> throws.
\<close>

lemma defineCloneProcedure_null: "defineCloneProcedure h procs VNull = Inl NativeTypeError"
  by (simp add: defineCloneProcedure_def typeof_def)

text \<open>
  C10: registration requires the argument itself to be of object type. For every argument
  whose \<open>typeof\<close> is not \<open>'object'\<close>, \<open>defineCloneProcedure\<close> returns false and leaves the
  registry as it was, whatever the argument carries: the witness is a function with a
  function-valued \<open>detect\<close> and a function-valued \<open>copy\<close> property.
\<close>

theorem C10_registration_requires_object:
  "typeof h procObj \<noteq> ''object'' \<Longrightarrow> defineCloneProcedure h procs procObj = Inr (False, procs)"
  by (simp add: defineCloneProcedure_def)

theorem C10_registration_requires_object_witness:
  "typeof ex_heap (VRef 11) \<noteq> ''object'' \<and>
   typeof ex_heap (Get ex_heap (VRef 11) ''detect'') = ''function'' \<and>
   typeof ex_heap (Get ex_heap (VRef 11) ''copy'') = ''function'' \<and>
   defineCloneProcedure ex_heap [6] (VRef 11) = Inr (False, [6])"
proof -
  have t: "typeof ex_heap (VRef 11) \<noteq> ''object''" by code_simp
  have d: "typeof ex_heap (Get ex_heap (VRef 11) ''detect'') = ''function''" by code_simp
  have c: "typeof ex_heap (Get ex_heap (VRef 11) ''copy'') = ''function''" by code_simp
  show ?thesis using t d c C10_registration_requires_object[OF t, of "[6]"] by simp
qed

text \<open>
  C5, as stated, promises that every argument with a function-valued \<open>detect\<close> and a
  function-valued \<open>copy\<close> is appended to the registry. A function that carries both is
  refused by the test \<open>typeof procObj === 'object'\<close> of line 242.
\<close>

theorem C5_callable_with_both_capabilities_counterexample:
  "typeof ex_heap (Get ex_heap (VRef 11) ''detect'') = ''function'' \<and>
   typeof ex_heap (Get ex_heap (VRef 11) ''copy'') = ''function'' \<and>
   defineCloneProcedure ex_heap [] (VRef 11) = Inr (False, [])"
  by code_simp

text \<open>
  C5, amended: for every argument other than \<open>null\<close>, registration does not throw; it
  appends the argument to the registry and returns true when the argument is an object
  (\<open>typeof\<close> is \<open>'object'\<close>) with a function-valued \<open>detect\<close> and a function-valued
  \<open>copy\<close>, and returns false with the registry unchanged in every other case.
\<close>

theorem C5_registration:
  "procObj \<noteq> VNull \<Longrightarrow>
   defineCloneProcedure h procs procObj =
     (case procObj of
        VRef a \<Rightarrow>
          if typeof h procObj = ''object'' \<and>
             typeof h (Get h procObj ''detect'') = ''function'' \<and>
             typeof h (Get h procObj ''copy'') = ''function''
          then Inr (True, procs @ [a])
          else Inr (False, procs)
      | _ \<Rightarrow> Inr (False, procs))"
  by (cases procObj) (simp_all add: defineCloneProcedure_def typeof_def)

theorem C5_registration_witness:
  "VRef 7 \<noteq> VNull \<and> defineCloneProcedure ex_heap [6] (VRef 7) = Inr (True, [6, 7]) \<and>
   VRef 10 \<noteq> VNull \<and> defineCloneProcedure ex_heap [6] (VRef 10) = Inr (False, [6]) \<and>
   VUndefined \<noteq> VNull \<and> defineCloneProcedure ex_heap [6] VUndefined = Inr (False, [6])"
proof -
  have a: "typeof ex_heap (VRef 7) = ''object''" by code_simp
  have b: "typeof ex_heap (Get ex_heap (VRef 7) ''detect'') = ''function''" by code_simp
  have c: "typeof ex_heap (Get ex_heap (VRef 7) ''copy'') = ''function''" by code_simp
  have d: "typeof ex_heap (Get ex_heap (VRef 10) ''detect'') \<noteq> ''function''" by code_simp
  show ?thesis
    using C5_registration[of "VRef 7" ex_heap "[6]"] C5_registration[of "VRef 10" ex_heap "[6]"]
      C5_registration[of VUndefined ex_heap "[6]"] a b c d
    by simp
qed

section \<open>The custom clone resolver\<close>

lemma passed_over_empty [simp]: "passed_over n n = []"
  by (simp add: passed_over_def)

lemma passed_over_Suc: "lo \<le> n \<Longrightarrow> passed_over lo (Suc n) = ConsoleLog n # CallDetect n # passed_over lo n"
  by (simp add: passed_over_def)

lemma attemptCustomClone_loop_match:
  assumes "j < n" and "n \<le> length procs"
    and "\<forall>i. j < i \<and> i < n \<longrightarrow> rejects H h (procs ! i) ob"
    and "call_method H h (VRef (procs ! j)) ''detect'' [ob] = Inr (d, h1)" and "truthy d"
  shows "attemptCustomClone_loop H procs n ob h =
     (passed_over (Suc j) n @ [ConsoleLog j, CallDetect j, CallCopy j],
      call_method H h1 (VRef (procs ! j)) ''copy'' [ob])"
  using assms(1-3)
proof (induction n)
  case 0
  then show ?case by simp
next
  case (Suc n)
  show ?case
  proof (cases "n = j")
    case True
    then show ?thesis
      using Suc.prems assms(4,5) by (auto split: sum.splits)
  next
    case False
    then have jn: "j < n" using Suc.prems by simp
    have "rejects H h (procs ! n) ob" using Suc.prems jn by simp
    then obtain d' where d': "call_method H h (VRef (procs ! n)) ''detect'' [ob] = Inr (d', h)" "\<not> truthy d'"
      by (auto simp: rejects_def split: sum.splits)
    have IH: "attemptCustomClone_loop H procs n ob h =
      (passed_over (Suc j) n @ [ConsoleLog j, CallDetect j, CallCopy j],
       call_method H h1 (VRef (procs ! j)) ''copy'' [ob])"
      using Suc.IH jn Suc.prems by simp
    show ?thesis
      using Suc.prems d' IH jn by (simp add: passed_over_Suc)
  qed
qed

lemma attemptCustomClone_loop_no_match:
  assumes "n \<le> length procs" and "\<forall>i < n. rejects H h (procs ! i) ob"
  shows "attemptCustomClone_loop H procs n ob h = (passed_over 0 n, Inr (VUndefined, h))"
  using assms
proof (induction n)
  case 0
  then show ?case by simp
next
  case (Suc n)
  have "rejects H h (procs ! n) ob" using Suc.prems by simp
  then obtain d' where d': "call_method H h (VRef (procs ! n)) ''detect'' [ob] = Inr (d', h)" "\<not> truthy d'"
    by (auto simp: rejects_def split: sum.splits)
  show ?case using Suc d' by (simp add: passed_over_Suc)
qed

text \<open>
  C6: the registry is scanned from the most recently added procedure to the least
  recently added one, and the first procedure whose detector returns true wins. If the
  procedure at index \<open>j\<close> detects the value and every procedure registered after it
  rejects it, then, whatever the procedures registered before \<open>j\<close> would answer, the scan
  visits the indices from the last down to \<open>j\<close>, calls the detectors of these only, calls
  one copy function, that of \<open>j\<close>, and returns what it returns.
\<close>

theorem C6_most_recent_procedure_wins:
  assumes "j < length procs"
    and "\<forall>i. j < i \<and> i < length procs \<longrightarrow> rejects H h (procs ! i) ob"
    and "call_method H h (VRef (procs ! j)) ''detect'' [ob] = Inr (d, h1)" and "truthy d"
  shows "attemptCustomClone H procs ob h =
     (passed_over (Suc j) (length procs) @ [ConsoleLog j, CallDetect j, CallCopy j],
      call_method H h1 (VRef (procs ! j)) ''copy'' [ob])"
  unfolding attemptCustomClone_def
  using attemptCustomClone_loop_match[OF assms(1) le_refl assms(2) assms(3) assms(4)] .

theorem C6_most_recent_procedure_wins_witness:
  "(1::nat) < length [6, 7, 13 :: addr] \<and>
   rejects ex_host ex_heap ([6, 7, 13] ! 2) (VRef 10) \<and>
   call_method ex_host ex_heap (VRef ([6, 7, 13] ! 1)) ''detect'' [VRef 10] = Inr (VBool True, ex_heap) \<and>
   call_method ex_host ex_heap (VRef ([6, 7, 13] ! 0)) ''detect'' [VRef 10] = Inr (VBool True, ex_heap) \<and>
   truthy (VBool True) \<and>
   attemptCustomClone ex_host [6, 7, 13] (VRef 10) ex_heap =
     ([ConsoleLog 2, CallDetect 2, ConsoleLog 1, CallDetect 1, CallCopy 1],
      Inr (VString ''second'', ex_heap))"
proof -
  have d0: "call_method ex_host ex_heap (VRef ([6, 7, 13] ! 0)) ''detect'' [VRef 10] = Inr (VBool True, ex_heap)"
    by code_simp
  have d1: "call_method ex_host ex_heap (VRef ([6, 7, 13] ! 1)) ''detect'' [VRef 10] = Inr (VBool True, ex_heap)"
    by code_simp
  have c1: "call_method ex_host ex_heap (VRef ([6, 7, 13] ! 1)) ''copy'' [VRef 10] = Inr (VString ''second'', ex_heap)"
    by code_simp
  have r2: "rejects ex_host ex_heap ([6, 7, 13] ! 2) (VRef 10)"
    by code_simp
  have t: "truthy (VBool True)" by (simp add: truthy_def)
  have n: "(1::nat) < length [6, 7, 13 :: addr]" by simp
  have "i = 2" if "1 < i \<and> i < length [6, 7, 13 :: addr]" for i :: nat
    using that by simp
  then have r: "\<forall>i. 1 < i \<and> i < length [6, 7, 13 :: addr] \<longrightarrow> rejects ex_host ex_heap ([6, 7, 13] ! i) (VRef 10)"
    using r2 by blast
  have p: "passed_over (Suc 1) (length [6, 7, 13 :: addr]) = [ConsoleLog 2, CallDetect 2]"
    by code_simp
  show ?thesis
    using C6_most_recent_procedure_wins[OF n r d1 t] d0 d1 c1 r2 t p
    by simp
qed

declare iSClone.simps [simp del] handleObjectClone.simps [simp del]

lemma typeof_undefined [simp]: "(typeof h v = ''undefined'') = (v = VUndefined)"
  by (auto simp: typeof_def split: val.splits option.splits)

lemma TransferMap_get_new [simp]: "TransferMap_get TransferMap_new v = VNull"
  by (simp add: TransferMap_get_def TransferMap_new_def indexOf_def)

lemma handleObjectClone_custom:
  assumes "TransferMap_get tMap input = VNull"
    and "snd (attemptCustomClone H procs input h) = Inr (c, h2)" and "c \<noteq> VUndefined"
  shows "handleObjectClone H procs fuel input tMap h = Some (Inr (c, tMap, h2))"
  using assms by (simp add: handleObjectClone.simps handleObjectClone_shell_def)

lemma clone_object:
  assumes "typeof h input = ''object''" and "input \<noteq> VNull"
  shows "clone H procs (Suc fuel) h input =
     (case handleObjectClone H procs fuel input TransferMap_new h of
        None \<Rightarrow> None
      | Some (Inl e) \<Rightarrow> Some (Inl e)
      | Some (Inr (output, tMap, h')) \<Rightarrow> Some (Inr (output, h')))"
  using assms by (simp add: clone_def iSClone.simps)

text \<open>
  C4, as stated, fails where the copy function of the matching procedure returns
  \<open>undefined\<close>: the resolver returns the same value as when nothing matches, and
  \<open>_handleObjectClone\<close> goes on to the built-in handling, whose output the clone returns.
\<close>

theorem C4_undefined_copy_result_counterexample:
  "call_method ex_host ex_heap (VRef 8) ''detect'' [VRef 10] = Inr (VBool True, ex_heap) \<and>
   truthy (VBool True) \<and>
   call_method ex_host ex_heap (VRef 8) ''copy'' [VRef 10] = Inr (VUndefined, ex_heap) \<and>
   attemptCustomClone ex_host [8] (VRef 10) ex_heap =
     ([ConsoleLog 0, CallDetect 0, CallCopy 0], Inr (VUndefined, ex_heap)) \<and>
   snd (attemptCustomClone ex_host [] (VRef 10) ex_heap) = Inr (VUndefined, ex_heap) \<and>
   clone ex_host [8] 1 ex_heap (VRef 10) = Some (Inr (VRef 14, ex_heap @ [record_obj []]))"
  by code_simp

text \<open>
  C4, amended: for every object (a value whose \<open>typeof\<close> is \<open>'object'\<close>, \<open>null\<close> apart), if
  the detector of a registered procedure matches, most recent first, and the copy function
  of that procedure returns anything but \<open>undefined\<close> (\<open>null\<close> included), the copy result is
  the output of the clone and no built-in handling takes place; when no detector matches,
  the resolver returns \<open>undefined\<close>. The code has no other sentinel: a copy result
  \<open>undefined\<close> reads as no match.
\<close>

theorem C4_custom_copy_result:
  "(typeof h input = ''object'' \<and> input \<noteq> VNull \<and> j < length procs \<and>
    (\<forall>i. j < i \<and> i < length procs \<longrightarrow> rejects H h (procs ! i) input) \<and>
    call_method H h (VRef (procs ! j)) ''detect'' [input] = Inr (d, h1) \<and> truthy d \<and>
    call_method H h1 (VRef (procs ! j)) ''copy'' [input] = Inr (c, h2) \<and> c \<noteq> VUndefined
    \<longrightarrow> clone H procs (Suc fuel) h input = Some (Inr (c, h2))) \<and>
   ((\<forall>i < length procs. rejects H h (procs ! i) input)
    \<longrightarrow> snd (attemptCustomClone H procs input h) = Inr (VUndefined, h))"
proof (intro conjI impI)
  assume a: "typeof h input = ''object'' \<and> input \<noteq> VNull \<and> j < length procs \<and>
    (\<forall>i. j < i \<and> i < length procs \<longrightarrow> rejects H h (procs ! i) input) \<and>
    call_method H h (VRef (procs ! j)) ''detect'' [input] = Inr (d, h1) \<and> truthy d \<and>
    call_method H h1 (VRef (procs ! j)) ''copy'' [input] = Inr (c, h2) \<and> c \<noteq> VUndefined"
  then have "attemptCustomClone_loop H procs (length procs) input h =
     (passed_over (Suc j) (length procs) @ [ConsoleLog j, CallDetect j, CallCopy j],
      call_method H h1 (VRef (procs ! j)) ''copy'' [input])"
    by (intro attemptCustomClone_loop_match[where d = d]) simp_all
  then have "snd (attemptCustomClone H procs input h) = Inr (c, h2)"
    using a by (simp add: attemptCustomClone_def)
  then have "handleObjectClone H procs fuel input TransferMap_new h = Some (Inr (c, TransferMap_new, h2))"
    using a by (intro handleObjectClone_custom) simp_all
  then show "clone H procs (Suc fuel) h input = Some (Inr (c, h2))"
    using a by (simp add: clone_object)
next
  assume "\<forall>i < length procs. rejects H h (procs ! i) input"
  then show "snd (attemptCustomClone H procs input h) = Inr (VUndefined, h)"
    by (simp add: attemptCustomClone_def attemptCustomClone_loop_no_match)
qed

theorem C4_custom_copy_result_witness:
  "typeof ex_heap (VRef 10) = ''object'' \<and> VRef 10 \<noteq> VNull \<and> (1::nat) < length [6, 9, 13 :: addr] \<and>
   rejects ex_host ex_heap ([6, 9, 13] ! 2) (VRef 10) \<and>
   call_method ex_host ex_heap (VRef ([6, 9, 13] ! 1)) ''detect'' [VRef 10] = Inr (VBool True, ex_heap) \<and>
   truthy (VBool True) \<and>
   call_method ex_host ex_heap (VRef ([6, 9, 13] ! 1)) ''copy'' [VRef 10] = Inr (VNull, ex_heap) \<and>
   VNull \<noteq> VUndefined \<and>
   clone ex_host [6, 9, 13] (Suc 0) ex_heap (VRef 10) = Some (Inr (VNull, ex_heap)) \<and>
   rejects ex_host ex_heap ([13] ! 0) (VRef 10) \<and>
   snd (attemptCustomClone ex_host [13] (VRef 10) ex_heap) = Inr (VUndefined, ex_heap)"
proof -
  have ty: "typeof ex_heap (VRef 10) = ''object''" by code_simp
  have d1: "call_method ex_host ex_heap (VRef ([6, 9, 13] ! 1)) ''detect'' [VRef 10] = Inr (VBool True, ex_heap)"
    by code_simp
  have c1: "call_method ex_host ex_heap (VRef ([6, 9, 13] ! 1)) ''copy'' [VRef 10] = Inr (VNull, ex_heap)"
    by code_simp
  have r2: "rejects ex_host ex_heap ([6, 9, 13] ! 2) (VRef 10)"
    by code_simp
  have t: "truthy (VBool True)" by (simp add: truthy_def)
  have "i = 2" if "1 < i \<and> i < length [6, 9, 13 :: addr]" for i :: nat
    using that by simp
  then have r: "\<forall>i. 1 < i \<and> i < length [6, 9, 13 :: addr] \<longrightarrow> rejects ex_host ex_heap ([6, 9, 13] ! i) (VRef 10)"
    using r2 by blast
  have r13: "rejects ex_host ex_heap 13 (VRef 10)" by code_simp
  then have r': "\<forall>i < length [13 :: addr]. rejects ex_host ex_heap ([13] ! i) (VRef 10)"
    by simp
  show ?thesis
    using C4_custom_copy_result[of ex_heap "VRef 10" 1 "[6, 9, 13]" ex_host "VBool True" ex_heap VNull ex_heap 0]
      C4_custom_copy_result[of ex_heap "VRef 10" 0 "[13]" ex_host]
      ty d1 c1 r2 t r r' r13
    by simp
qed

section \<open>The clone leaves the objects that exist as they are\<close>

lemma prefix_nth_iff:
  "prefix h h' = (length h \<le> length h' \<and> (\<forall>a < length h. h' ! a = h ! a))"
proof
  assume "prefix h h'"
  then show "length h \<le> length h' \<and> (\<forall>a < length h. h' ! a = h ! a)"
    by (auto simp: prefix_def nth_append)
next
  assume a: "length h \<le> length h' \<and> (\<forall>a < length h. h' ! a = h ! a)"
  then have "take (length h) h' = h"
    by (intro nth_equalityI) simp_all
  then show "prefix h h'"
    by (metis take_is_prefix)
qed

lemma call_method_frame:
  "host_frame H \<Longrightarrow> call_method H h recv name args = Inr (v, h') \<Longrightarrow> prefix h h'"
  by (auto simp: call_method_def host_frame_def split: val.splits if_splits)

lemma attemptCustomClone_loop_frame:
  "host_frame H \<Longrightarrow> snd (attemptCustomClone_loop H procs n ob h) = Inr (c, h') \<Longrightarrow> prefix h h'"
proof (induction n arbitrary: h)
  case 0
  then show ?case by simp
next
  case (Suc n)
  show ?case
  proof (cases "n < length procs")
    case False
    then show ?thesis using Suc.prems by simp
  next
    case True
    show ?thesis
    proof (cases "call_method H h (VRef (procs ! n)) ''detect'' [ob]")
      case (Inl e)
      then show ?thesis using Suc.prems True by simp
    next
      case (Inr r)
      obtain d h1 where r: "r = (d, h1)" by (cases r)
      have p1: "prefix h h1" using call_method_frame[OF Suc.prems(1)] Inr r by blast
      show ?thesis
      proof (cases "truthy d")
        case True
        then obtain h2 where "call_method H h1 (VRef (procs ! n)) ''copy'' [ob] = Inr (c, h')"
          using Suc.prems \<open>n < length procs\<close> Inr r by (auto split: sum.splits)
        then have "prefix h1 h'" using call_method_frame[OF Suc.prems(1)] by blast
        then show ?thesis using p1 by (rule prefix_order.trans[rotated])
      next
        case False
        then have "snd (attemptCustomClone_loop H procs n ob h1) = Inr (c, h')"
          using Suc.prems \<open>n < length procs\<close> Inr r by (auto split: prod.splits)
        then have "prefix h1 h'" using Suc.IH Suc.prems(1) by blast
        then show ?thesis using p1 by (rule prefix_order.trans[rotated])
      qed
    qed
  qed
qed

lemma attemptCustomClone_frame:
  "host_frame H \<Longrightarrow> snd (attemptCustomClone H procs ob h) = Inr (c, h') \<Longrightarrow> prefix h h'"
  unfolding attemptCustomClone_def by (rule attemptCustomClone_loop_frame)



lemma obj_at_None_iff: "(obj_at h a = None) = (length h \<le> a)"
  by (auto simp: obj_at_def)

lemma obj_at_lt [simp]: "a < length h \<Longrightarrow> obj_at h a = Some (h ! a)"
  by (simp add: obj_at_def)

lemma obj_at_ge [simp]: "length h \<le> a \<Longrightarrow> obj_at h a = None"
  by (simp add: obj_at_def)

lemma switch_obType_frame:
  assumes "host_frame H" and "switch_obType H h input ob = Inr (outp, isC, h')"
  shows "prefix h h'" and "isC \<Longrightarrow> outp = VRef (length h) \<and> length h' = Suc (length h)"
  using assms call_method_frame[OF assms(1), of h input "''cloneNode''" "[]"]
  by (auto simp: switch_obType_def Let_def new_wrapper_def alloc_def handleRegExpClone_def
      new_RegExp_def regexp_props_def new_Array_def Object_create_def
      split: if_splits sum.splits prod.splits val.splits)

lemma TransferMap_set_cases:
  "TransferMap_set tMap i out = tMap \<or>
   (inputs (TransferMap_set tMap i out) = inputs tMap @ [i] \<and>
    outputs (TransferMap_set tMap i out) = outputs tMap @ [out])"
  by (simp add: TransferMap_set_def)

lemma shell_frame:
  assumes "host_frame H"
    and "handleObjectClone_shell H procs input tMap h = Inr (outp, isC, tMap2, h2)"
  shows "prefix h h2"
    and "isC \<Longrightarrow> \<exists>a. outp = VRef a \<and> length h \<le> a \<and> length h2 = Suc a"
proof -
  show "prefix h h2"
  proof (cases "TransferMap_get tMap input \<noteq> VNull")
    case True
    then show ?thesis using assms(2) by (simp add: handleObjectClone_shell_def)
  next
    case False
    then obtain c h1 where a: "snd (attemptCustomClone H procs input h) = Inr (c, h1)"
      using assms(2) by (auto simp: handleObjectClone_shell_def split: sum.splits)
    have p1: "prefix h h1" using attemptCustomClone_frame[OF assms(1) a] .
    show ?thesis
    proof (cases "c = VUndefined")
      case False
      then show ?thesis using assms(2) a p1 \<open>\<not> TransferMap_get tMap input \<noteq> VNull\<close>
        by (simp add: handleObjectClone_shell_def)
    next
      case True
      then obtain a ob where s: "input = VRef a" "switch_obType H h1 input ob = Inr (outp, isC, h2)"
        using assms(2) a \<open>\<not> TransferMap_get tMap input \<noteq> VNull\<close>
        by (auto simp: handleObjectClone_shell_def split: val.splits option.splits sum.splits)
      show ?thesis using switch_obType_frame(1)[OF assms(1) s(2)] p1
        by (rule prefix_order.trans[rotated])
    qed
  qed
next
  assume isC
  then have n: "TransferMap_get tMap input = VNull"
    using assms(2) by (auto simp: handleObjectClone_shell_def Let_def split: if_splits)
  then obtain c h1 where a: "snd (attemptCustomClone H procs input h) = Inr (c, h1)"
    using assms(2) by (auto simp: handleObjectClone_shell_def split: sum.splits)
  have p1: "prefix h h1" using attemptCustomClone_frame[OF assms(1) a] .
  have "c = VUndefined" using assms(2) a n \<open>isC\<close>
    by (auto simp: handleObjectClone_shell_def split: if_splits)
  then obtain a' ob where s: "input = VRef a'" "switch_obType H h1 input ob = Inr (outp, isC, h2)"
    using assms(2) a n
    by (auto simp: handleObjectClone_shell_def split: val.splits option.splits sum.splits)
  have "outp = VRef (length h1) \<and> length h2 = Suc (length h1)"
    using switch_obType_frame(2)[OF assms(1) s(2) \<open>isC\<close>] .
  moreover have "length h \<le> length h1" using p1 by (simp add: prefix_nth_iff)
  ultimately show "\<exists>a. outp = VRef a \<and> length h \<le> a \<and> length h2 = Suc a" by blast
qed

lemma Put_length [simp]: "length (Put h target k v) = length h"
  by (simp add: Put_def split: val.splits option.splits)

lemma Put_other: "VRef a \<noteq> target \<Longrightarrow> Put h target k v ! a = h ! a"
  by (cases target) (simp_all add: Put_def split: option.splits)

lemma clone_frame:
  "host_frame H \<Longrightarrow> iSClone H procs fuel input tMap h = Some (Inr (v, tMap', h')) \<Longrightarrow> prefix h h'"
  "host_frame H \<Longrightarrow> handleObjectClone H procs fuel input tMap h = Some (Inr (v, tMap', h')) \<Longrightarrow> prefix h h'"
  "host_frame H \<Longrightarrow> handleCollectionClone H procs fuel ks input outp tMap h = Some (Inr (u, tMap', h')) \<Longrightarrow>
     length h \<le> length h' \<and> (\<forall>a < length h. VRef a \<noteq> outp \<longrightarrow> h' ! a = h ! a)"
proof (induction H procs fuel input tMap h and H procs fuel input tMap h and H procs fuel ks input outp tMap h
    arbitrary: v tMap' h' and v tMap' h' and u tMap' h'
    rule: iSClone_handleObjectClone_handleCollectionClone.induct)
  case (1 H procs fuel input tMap h)
  then show ?case
    by (auto simp: iSClone.simps split: if_splits nat.splits)
next
  case (2 H procs fuel input tMap h)
  from "2.prems"(2) obtain outp isC tMap2 h2 where
    sh: "handleObjectClone_shell H procs input tMap h = Inr (outp, isC, tMap2, h2)"
    by (auto simp: handleObjectClone.simps split: sum.splits)
  have p: "prefix h h2" using shell_frame(1)[OF "2.prems"(1) sh] .
  show ?case
  proof (cases isC)
    case False
    then show ?thesis using "2.prems"(2) sh p by (simp add: handleObjectClone.simps)
  next
    case True
    then obtain u where
      lp: "handleCollectionClone H procs fuel (for_in_keys (length h2) h2 input []) input outp tMap2 h2
            = Some (Inr (u, tMap', h'))"
      using "2.prems"(2) sh by (auto simp: handleObjectClone.simps split: option.splits sum.splits)
    have IH: "length h2 \<le> length h' \<and> (\<forall>a < length h2. VRef a \<noteq> outp \<longrightarrow> h' ! a = h2 ! a)"
      using "2.IH"[OF sh refl refl refl True "2.prems"(1) lp] .
    obtain a where a: "outp = VRef a" "length h \<le> a" "length h2 = Suc a"
      using shell_frame(2)[OF "2.prems"(1) sh True] by blast
    show ?thesis
      using IH a p by (auto simp: prefix_nth_iff)
  qed
next
  case (3 H procs fuel input outp tMap h)
  then show ?case by simp
next
  case (4 H procs fuel key rest input outp tMap h)
  show ?case
  proof (cases "hasOwnProperty h input key")
    case False
    then show ?thesis using "4.IH"(3) "4.prems" by simp
  next
    case True
    then obtain w tMap1 h1 where
      c: "iSClone H procs fuel (Get h input key) tMap h = Some (Inr (w, tMap1, h1))"
      and r: "handleCollectionClone H procs fuel rest input outp tMap1 (Put h1 outp key w)
            = Some (Inr (u, tMap', h'))"
      using "4.prems"(2) by (auto split: option.splits sum.splits)
    have p1: "prefix h h1" using "4.IH"(1)[OF True "4.prems"(1) c] .
    have IH2: "length (Put h1 outp key w) \<le> length h' \<and>
       (\<forall>a < length (Put h1 outp key w). VRef a \<noteq> outp \<longrightarrow> h' ! a = Put h1 outp key w ! a)"
      using "4.IH"(2)[OF True c refl refl refl "4.prems"(1) r] .
    show ?thesis
      using p1 IH2 by (auto simp: prefix_nth_iff Put_other)
  qed
qed

section \<open>The transfer map only grows\<close>

lemma tm_le_refl [simp]: "tm_le t t"
  by (simp add: tm_le_def)





lemma registered_iff: "registered t x = (\<exists>y \<in> set (inputs t). strict_equals y x)"
  by (simp add: registered_def indexOf_absent)











lemma Put_Class [simp]: "Class (Put h target k v ! a) = Class (h ! a)"
proof (cases target)
  case (VRef b)
  show ?thesis
  proof (cases "a = b")
    case True
    then show ?thesis using VRef
      by (cases "b < length h") (simp_all add: Put_def add: obj_at_def)
  next
    case False
    then show ?thesis using VRef by (simp add: Put_other)
  qed
qed (simp_all add: Put_def)

lemma Put_callable [simp]: "callable (Put h target k v ! a) = callable (h ! a)"
proof (cases target)
  case (VRef b)
  show ?thesis
  proof (cases "a = b")
    case True
    then show ?thesis using VRef
      by (cases "b < length h") (simp_all add: Put_def add: obj_at_def)
  next
    case False
    then show ?thesis using VRef by (simp add: Put_other)
  qed
qed (simp_all add: Put_def)

lemma toString_Put [simp]: "toString (Put h target k v ! a) = toString (h ! a)"
  by (simp add: toString_def)




section \<open>Cycles and shared references\<close>


lemma no_match_at:
  "no_match H procs h0 v \<Longrightarrow> prefix h0 h \<Longrightarrow> snd (attemptCustomClone H procs v h) = Inr (VUndefined, h)"
  by (simp add: no_match_def)

lemma shell_builtin:
  assumes "TransferMap_get tMap (VRef s) = VNull"
    and "snd (attemptCustomClone H procs (VRef s) h) = Inr (VUndefined, h)"
    and "s < length h"
  shows "handleObjectClone_shell H procs (VRef s) tMap h =
     (case switch_obType H h (VRef s) (h ! s) of
        Inl e \<Rightarrow> Inl e
      | Inr (outp, isC, h2) \<Rightarrow> Inr (outp, isC, TransferMap_set tMap (VRef s) outp, h2))"
  using assms by (simp add: handleObjectClone_shell_def obj_at_def)


lemma map_of_put_prop:
  "map_of (put_prop ps k v) k' =
     (if k' = k then Some (v, case map_of ps k of Some (w, e) \<Rightarrow> e | None \<Rightarrow> True) else map_of ps k')"
  by (induction ps k v rule: put_prop.induct) auto


lemma Get_own:
  assumes "a < length h" and "map_of (props (h ! a)) k = Some (v, e)"
  shows "Get h (VRef a) k = v"
proof -
  obtain n where "length h = Suc n" using assms(1) by (cases "length h") auto
  then show ?thesis using assms by (simp add: Get_def obj_at_def)
qed













section \<open>Regular expressions\<close>

lemma regExpFlags_eq:
  "regExpFlags h re =
     (if truthy (Get h re ''global'') then ''g'' else []) @
     (if truthy (Get h re ''ignoreCase'') then ''i'' else []) @
     (if truthy (Get h re ''multiline'') then ''m'' else [])"
  by (simp add: regExpFlags_def)




section \<open>Functions and unsupported objects\<close>

lemma not_registered_new [simp]: "\<not> registered TransferMap_new x"
  by (simp add: registered_def TransferMap_new_def indexOf_def)

lemma get_unregistered: "\<not> registered t x \<Longrightarrow> TransferMap_get t x = VNull"
  by (simp add: TransferMap_get_def registered_def Let_def)











section \<open>What a plain run allocates\<close>

text \<open>
  With no custom procedure taking anything and on a well-formed heap, every object that a
  run allocates is a wrapper, a date, a regular expression, an array or a plain record, and
  its members are primitives, functions of the input heap, or objects allocated by the run.
\<close>
lemma sval_mono: "sval h0 L v \<Longrightarrow> L \<le> L' \<Longrightarrow> sval h0 L' v"
  by (auto simp: sval_def split: val.splits)

lemma good_obj_mono: "good_obj H h0 L ob \<Longrightarrow> L \<le> L' \<Longrightarrow> good_obj H h0 L' ob"
  unfolding good_obj_def by (auto split: if_splits intro: sval_mono)

lemma put_prop_set:
  "(k', v', e') \<in> set (put_prop ps k v) \<Longrightarrow>
     (k', v', e') \<in> set ps \<or> (k' = k \<and> v' = v \<and> (e' \<or> (\<exists>v0. (k, v0, e') \<in> set ps)))"
  by (induction ps k v rule: put_prop.induct) (auto split: if_splits)

lemma put_prop_keys: "set (map fst (put_prop ps k v)) = insert k (set (map fst ps))"
  by (induction ps k v rule: put_prop.induct) auto

lemma put_prop_distinct: "distinct (map fst ps) \<Longrightarrow> distinct (map fst (put_prop ps k v))"
proof (induction ps k v rule: put_prop.induct)
  case (1 k v)
  then show ?case by simp
next
  case (2 k' v' e ps k v)
  then show ?case using put_prop_keys[of ps k v] by (auto simp del: set_map)
qed

lemma good_obj_put:
  assumes "good_obj H h0 L ob" and "Class ob \<in> {''Array'', ''Object''}" and "sval h0 L w"
    and "Class ob = ''Array'' \<Longrightarrow> key = ''length'' \<Longrightarrow> \<exists>n. w = VNumber n \<and> is_array_length n"
  shows "good_obj H h0 L (ob\<lparr>props := put_prop (props ob) key w\<rparr>)"
proof (cases "Class ob = ''Array''")
  case True
  have g: "array_ok ob" "\<forall>(k, v, e) \<in> set (props ob). k \<noteq> ''length'' \<longrightarrow> e \<and> sval h0 L v"
    "distinct (map fst (props ob))"
    using assms(1) True unfolding good_obj_def by auto
  have ao: "array_ok (ob\<lparr>props := put_prop (props ob) key w\<rparr>)"
    using g(1) assms(4)[OF True] by (auto simp: array_ok_def map_of_put_prop)
  have "e \<and> sval h0 L v" if "(k, v, e) \<in> set (put_prop (props ob) key w)" "k \<noteq> ''length''" for k v e
  proof -
    from put_prop_set[OF that(1)] show ?thesis
    proof
      assume "(k, v, e) \<in> set (props ob)"
      then show ?thesis using g(2) that(2) by auto
    next
      assume "k = key \<and> v = w \<and> (e \<or> (\<exists>v0. (key, v0, e) \<in> set (props ob)))"
      then show ?thesis using g(2) that(2) assms(3) by auto
    qed
  qed
  then have al: "\<forall>(k, v, e) \<in> set (put_prop (props ob) key w). k \<noteq> ''length'' \<longrightarrow> e \<and> sval h0 L v"
    by auto
  show ?thesis
    unfolding good_obj_def
    using assms(1)[unfolded good_obj_def] True ao al put_prop_distinct[OF g(3)] by auto
next
  case False
  then have c: "Class ob = ''Object''" using assms(2) by simp
  have g: "\<forall>(k, v, e) \<in> set (props ob). e \<and> sval h0 L v" "distinct (map fst (props ob))"
    using assms(1) c unfolding good_obj_def by auto
  have "e \<and> sval h0 L v" if "(k, v, e) \<in> set (put_prop (props ob) key w)" for k v e
  proof -
    from put_prop_set[OF that] show ?thesis
    proof
      assume "(k, v, e) \<in> set (props ob)"
      then show ?thesis using g(1) by auto
    next
      assume "k = key \<and> v = w \<and> (e \<or> (\<exists>v0. (key, v0, e) \<in> set (props ob)))"
      then show ?thesis using g(1) assms(3) by auto
    qed
  qed
  then have al: "\<forall>(k, v, e) \<in> set (put_prop (props ob) key w). e \<and> sval h0 L v"
    by auto
  show ?thesis
    unfolding good_obj_def
    using assms(1)[unfolded good_obj_def] c al put_prop_distinct[OF g(2)] by auto
qed

lemma iSClone_not_object:
  "typeof h v \<noteq> ''object'' \<Longrightarrow> iSClone H procs fuel v tMap h = Some (Inr (v, tMap, h))"
  by (auto simp: iSClone.simps typeof_def)

lemma wf_heapD:
  assumes "wf_heap H h0" and "b < length h0"
  shows "val_ok (length h0) (proto (h0 ! b))" and "val_ok (length h0) (primitive (h0 ! b))"
    and "(k, v, e) \<in> set (props (h0 ! b)) \<Longrightarrow> val_ok (length h0) v"
    and "\<not> htmlElementRE_test (toString (h0 ! b))"
    and "Class (h0 ! b) = ''Array'' \<Longrightarrow> array_ok (h0 ! b)"
  using assms nth_mem[OF assms(2)] unfolding wf_heap_def by blast+

lemma wf_heap_realm: "wf_heap H h0 \<Longrightarrow> val_ok (length h0) (realm_proto H cls)"
  unfolding wf_heap_def by blast

lemma wf_heap_protos:
  assumes "wf_heap H h0"
  shows "val_ok (length h0) (StringProto H)" "val_ok (length h0) (NumberProto H)"
    "val_ok (length h0) (BooleanProto H)" "val_ok (length h0) (DateProto H)"
    "val_ok (length h0) (RegExpProto H)" "val_ok (length h0) (ArrayProto H)"
  using wf_heap_realm[OF assms, of "''String''"] wf_heap_realm[OF assms, of "''Number''"]
    wf_heap_realm[OF assms, of "''Boolean''"] wf_heap_realm[OF assms, of "''Date''"]
    wf_heap_realm[OF assms, of "''RegExp''"] wf_heap_realm[OF assms, of "''Array''"]
  by (simp_all add: realm_proto_def)

lemma get_chain_ok:
  assumes "wf_heap H h0" and "prefix h0 h"
  shows "val_ok (length h0) v \<Longrightarrow> val_ok (length h0) (get_chain n h v k)"
proof (induction n arbitrary: v)
  case 0
  then show ?case by (simp add: val_ok_def)
next
  case (Suc n)
  show ?case
  proof (cases v)
    case (VRef b)
    then have b: "b < length h0" using Suc.prems by (simp add: val_ok_def)
    then have hb: "b < length h" "h ! b = h0 ! b" using assms(2) by (auto simp: prefix_nth_iff)
    show ?thesis
    proof (cases "map_of (props (h0 ! b)) k")
      case None
      then show ?thesis using VRef hb Suc.IH[OF wf_heapD(1)[OF assms(1) b]] by simp
    next
      case (Some ve)
      obtain v' e where ve: "ve = (v', e)" by (cases ve)
      have "(k, v', e) \<in> set (props (h0 ! b))" using Some ve by (simp add: map_of_SomeD)
      then have "val_ok (length h0) v'" using wf_heapD(3)[OF assms(1) b] by blast
      then show ?thesis using VRef hb Some ve by simp
    qed
  qed (simp_all add: val_ok_def)
qed

lemma Get_ok:
  "wf_heap H h0 \<Longrightarrow> prefix h0 h \<Longrightarrow> val_ok (length h0) v \<Longrightarrow> val_ok (length h0) (Get h v k)"
  unfolding Get_def by (rule get_chain_ok)

lemma inv1_get:
  assumes "inv1 H h0 tMap h" and "registered tMap x"
  shows "\<exists>b. TransferMap_get tMap x = VRef b \<and> length h0 \<le> b \<and> b < length h"
proof -
  let ?P = "\<lambda>y. \<not> strict_equals y x"
  let ?i = "length (takeWhile ?P (inputs tMap))"
  have ok: "length (inputs tMap) = length (outputs tMap)"
    and out: "outputs tMap = map VRef [length h0..<length h]"
    using assms(1) by (simp_all add: inv1_def tm_ok_def)
  have f: "\<exists>y \<in> set (inputs tMap). strict_equals y x" using assms(2) by (simp add: registered_iff)
  then have lt: "?i < length (outputs tMap)" using takeWhile_lt[of "inputs tMap" ?P] ok by simp
  have "TransferMap_get tMap x = outputs tMap ! ?i"
    using TransferMap_get_char[OF ok, of x] f by simp
  moreover have "outputs tMap ! ?i = VRef (length h0 + ?i)" "length h0 + ?i < length h"
    using lt unfolding out by simp_all
  ultimately show ?thesis by auto
qed

lemma inv1_registered: "inv1 H h0 tMap h \<Longrightarrow> registered tMap x = (TransferMap_get tMap x \<noteq> VNull)"
  using inv1_get[of H h0 tMap h x] get_unregistered[of tMap x] by auto

lemma regExpFlags_set: "set (regExpFlags h re) \<subseteq> {CHR ''g'', CHR ''i'', CHR ''m''}"
  by (auto simp: regExpFlags_eq)

lemma distinct_regexp_props: "distinct (map fst (regexp_props src fl))"
  by (simp add: regexp_props_def)

lemma switch_wrapper:
  assumes "Class ob \<in> {''String'', ''Number'', ''Boolean'', ''Date''}"
  shows "switch_obType H h input ob =
     Inr (VRef (length h), False,
          h @ [\<lparr>Class = Class ob, callable = False, proto = realm_proto H (Class ob),
                 primitive = primitive ob, props = []\<rparr>])"
proof -
  consider "Class ob = ''String''" | "Class ob = ''Number''" | "Class ob = ''Boolean''" | "Class ob = ''Date''"
    using assms by auto
  then show ?thesis
    by cases (simp_all add: switch_obType_def toString_def valueOf_def new_wrapper_def alloc_def
        realm_proto_def)
qed

lemma switch_RegExp:
  assumes "Class ob = ''RegExp''"
  shows "switch_obType H h input ob =
     Inr (VRef (length h), False,
          h @ [\<lparr>Class = ''RegExp'', callable = False, proto = RegExpProto H,
                 primitive = VUndefined,
                 props = regexp_props (Get h input ''source'') (regExpFlags h input)\<rparr>])"
  using assms
  by (simp add: switch_obType_def toString_def valueOf_def handleRegExpClone_def new_RegExp_def alloc_def)

lemma switch_Array:
  assumes "Class ob = ''Array''" and "Get h input ''length'' = VNumber n" and "is_array_length n"
  shows "switch_obType H h input ob =
     Inr (VRef (length h), True,
          h @ [\<lparr>Class = ''Array'', callable = False, proto = ArrayProto H,
                 primitive = VUndefined, props = [(''length'', VNumber n, False)]\<rparr>])"
  using assms
  by (simp add: switch_obType_def toString_def new_Array_def alloc_def)

lemma switch_Object:
  assumes "Class ob = ''Object''"
  shows "switch_obType H h input ob =
     Inr (VRef (length h), True,
          h @ [\<lparr>Class = ''Object'', callable = False, proto = proto ob,
                 primitive = VUndefined, props = []\<rparr>])"
  using assms
  by (simp add: switch_obType_def toString_def Object_create_def alloc_def)

lemma switch_classes:
  assumes "switch_obType H h input ob = Inr r" and "\<not> htmlElementRE_test (toString ob)"
  shows "Class ob \<in> {''String'', ''Number'', ''Boolean'', ''Date'', ''RegExp'', ''Array'', ''Object''}"
proof (rule ccontr)
  assume "Class ob \<notin> {''String'', ''Number'', ''Boolean'', ''Date'', ''RegExp'', ''Array'', ''Object''}"
  then have "switch_obType H h input ob =
      Inl (TypeError (''Don't know how to clone object of type '' @ toString ob))"
    using assms(2) by (simp add: switch_obType_def toString_def)
  then show False using assms(1) by simp
qed

lemma switch_good:
  assumes "wf_heap H h0" and "prefix h0 h" and "a < length h0"
    and "switch_obType H h (VRef a) (h0 ! a) = Inr (outp, isC, h2)"
  shows "\<exists>ob'. h2 = h @ [ob'] \<and> outp = VRef (length h) \<and> good_obj H h0 (Suc (length h)) ob' \<and>
           Class ob' = Class (h0 ! a) \<and> isC = (Class ob' \<in> {''Array'', ''Object''})"
proof -
  note w = wf_heapD[OF assms(1,3)]
  note p = wf_heap_protos[OF assms(1)]
  have vu: "val_ok (length h0) VUndefined" by (simp add: val_ok_def)
  consider (wr) "Class (h0 ! a) \<in> {''String'', ''Number'', ''Boolean'', ''Date''}"
    | (re) "Class (h0 ! a) = ''RegExp''" | (ar) "Class (h0 ! a) = ''Array''"
    | (ob) "Class (h0 ! a) = ''Object''"
    using switch_classes[OF assms(4) w(4)] by auto
  then show ?thesis
  proof cases
    case wr
    let ?ob = "\<lparr>Class = Class (h0 ! a), callable = False, proto = realm_proto H (Class (h0 ! a)),
                 primitive = primitive (h0 ! a), props = []\<rparr>"
    have "good_obj H h0 (Suc (length h)) ?ob"
      using wr w(2) wf_heap_realm[OF assms(1)] by (simp add: good_obj_def)
    moreover have "Class ?ob \<notin> {''Array'', ''Object''}" using wr by auto
    ultimately show ?thesis
      using assms(4) unfolding switch_wrapper[OF wr] by (intro exI[of _ ?ob]) simp
  next
    case re
    let ?ob = "\<lparr>Class = ''RegExp'', callable = False, proto = RegExpProto H,
                 primitive = VUndefined,
                 props = regexp_props (Get h (VRef a) ''source'') (regExpFlags h (VRef a))\<rparr>"
    have gs: "val_ok (length h0) (Get h (VRef a) ''source'')"
      using Get_ok[OF assms(1,2)] assms(3) by (simp add: val_ok_def)
    have "good_obj H h0 (Suc (length h)) ?ob"
      using p(5) vu gs regExpFlags_set[of h "VRef a"] distinct_regexp_props
      by (auto simp: good_obj_def)
    then show ?thesis
      using assms(4) re unfolding switch_RegExp[OF re] by (intro exI[of _ ?ob]) simp
  next
    case ar
    then obtain n where n: "is_array_length n" "map_of (props (h0 ! a)) ''length'' = Some (VNumber n, False)"
      using w(5) by (auto simp: array_ok_def)
    have hb: "a < length h" "h ! a = h0 ! a" using assms(2,3) by (auto simp: prefix_nth_iff)
    have gl: "Get h (VRef a) ''length'' = VNumber n"
      using Get_own[OF hb(1), of "''length''" "VNumber n" False] hb(2) n(2) by simp
    let ?ob = "\<lparr>Class = ''Array'', callable = False, proto = ArrayProto H,
                 primitive = VUndefined, props = [(''length'', VNumber n, False)]\<rparr>"
    have "good_obj H h0 (Suc (length h)) ?ob"
      using p(6) vu n(1) by (simp add: good_obj_def array_ok_def)
    then show ?thesis
      using assms(4) ar unfolding switch_Array[OF ar gl n(1)] by (intro exI[of _ ?ob]) simp
  next
    case ob
    let ?ob = "\<lparr>Class = ''Object'', callable = False, proto = proto (h0 ! a),
                 primitive = VUndefined, props = []\<rparr>"
    have "good_obj H h0 (Suc (length h)) ?ob"
      using w(1) vu by (simp add: good_obj_def)
    then show ?thesis
      using assms(4) ob unfolding switch_Object[OF ob] by (intro exI[of _ ?ob]) simp
  qed
qed

lemma plain_runD:
  assumes "plain_run H procs h0"
  shows "host_frame H" and "wf_heap H h0" and "no_match H procs h0 v"
  using assms by (simp_all add: plain_run_def)

lemma shell_plain:
  assumes "plain_run H procs h0" and "inv1 H h0 tMap h" and "a < length h0"
    and "handleObjectClone_shell H procs (VRef a) tMap h = Inr (outp, isC, tMap2, h2)"
  shows "(registered tMap (VRef a) \<and> outp = TransferMap_get tMap (VRef a) \<and> \<not> isC \<and>
          tMap2 = tMap \<and> h2 = h) \<or>
         (\<not> registered tMap (VRef a) \<and>
          (\<exists>ob'. h2 = h @ [ob'] \<and> outp = VRef (length h) \<and>
             tMap2 = TransferMap_set tMap (VRef a) outp \<and>
             inputs tMap2 = inputs tMap @ [VRef a] \<and> outputs tMap2 = outputs tMap @ [outp] \<and>
             good_obj H h0 (Suc (length h)) ob' \<and> Class ob' = Class (h0 ! a) \<and>
             isC = (Class ob' \<in> {''Array'', ''Object''})))"
proof (cases "registered tMap (VRef a)")
  case True
  then have "TransferMap_get tMap (VRef a) \<noteq> VNull" using inv1_registered[OF assms(2)] by simp
  then show ?thesis using assms(4) True by (auto simp: handleObjectClone_shell_def)
next
  case False
  have p: "prefix h0 h" using assms(2) by (simp add: inv1_def)
  then have l: "a < length h" "h ! a = h0 ! a" using assms(3) by (auto simp: prefix_nth_iff)
  have at: "snd (attemptCustomClone H procs (VRef a) h) = Inr (VUndefined, h)"
    using no_match_at[OF plain_runD(3)[OF assms(1)] p] .
  have sw: "switch_obType H h (VRef a) (h0 ! a) = Inr (outp, isC, h2)"
    and tm2: "tMap2 = TransferMap_set tMap (VRef a) outp"
    using assms(4) shell_builtin[OF get_unregistered[OF False] at l(1)] l(2)
    by (auto split: sum.splits)
  have ap: "inputs tMap2 = inputs tMap @ [VRef a] \<and> outputs tMap2 = outputs tMap @ [outp]"
    using False unfolding tm2 by (simp add: TransferMap_set_def registered_def)
  show ?thesis
    using switch_good[OF plain_runD(2)[OF assms(1)] p assms(3) sw] False tm2 ap by blast
qed

lemma inv1_alloc:
  assumes "inv1 H h0 tMap h" and "good_obj H h0 (Suc (length h)) ob'"
    and "inputs tMap2 = inputs tMap @ [x]" and "outputs tMap2 = outputs tMap @ [VRef (length h)]"
  shows "inv1 H h0 tMap2 (h @ [ob'])"
proof -
  have p: "prefix h0 h" and ok: "tm_ok tMap"
    and out: "outputs tMap = map VRef [length h0..<length h]"
    and g: "\<forall>b. length h0 \<le> b \<and> b < length h \<longrightarrow> good_obj H h0 (length h) (h ! b)"
    using assms(1) by (simp_all add: inv1_def)
  have le: "length h0 \<le> length h" using p by (simp add: prefix_nth_iff)
  have "prefix h0 (h @ [ob'])" using p by (simp add: prefix_def) (metis append.assoc)
  moreover have "tm_ok tMap2" using ok assms(3,4) by (simp add: tm_ok_def)
  moreover have "outputs tMap2 = map VRef [length h0..<length (h @ [ob'])]"
    using out le assms(4) by simp
  moreover have "good_obj H h0 (length (h @ [ob'])) ((h @ [ob']) ! b)"
    if "length h0 \<le> b \<and> b < length (h @ [ob'])" for b
  proof (cases "b < length h")
    case True
    then show ?thesis using g that good_obj_mono[of H h0 "length h" "h ! b" "Suc (length h)"]
      by (simp add: nth_append)
  next
    case False
    then have "b = length h" using that by simp
    then show ?thesis using assms(2) by simp
  qed
  ultimately show ?thesis unfolding inv1_def by blast
qed

lemma inv1_Put:
  assumes "inv1 H h0 tMap h" and "length h0 \<le> out" and "out < length h"
    and "good_obj H h0 (length h) ((h ! out)\<lparr>props := put_prop (props (h ! out)) key w\<rparr>)"
  shows "inv1 H h0 tMap (Put h (VRef out) key w)"
proof -
  have p: "prefix h0 h" and ok: "tm_ok tMap"
    and out: "outputs tMap = map VRef [length h0..<length h]"
    and g: "\<forall>b. length h0 \<le> b \<and> b < length h \<longrightarrow> good_obj H h0 (length h) (h ! b)"
    using assms(1) by (simp_all add: inv1_def)
  have "prefix h0 (Put h (VRef out) key w)"
    using p assms(2) by (auto simp: prefix_nth_iff Put_other)
  moreover have "good_obj H h0 (length (Put h (VRef out) key w)) (Put h (VRef out) key w ! b)"
    if "length h0 \<le> b \<and> b < length (Put h (VRef out) key w)" for b
  proof (cases "b = out")
    case True
    then show ?thesis using assms(3,4) by (simp add: Put_def)
  next
    case False
    then show ?thesis using g that by (simp add: Put_other)
  qed
  ultimately show ?thesis using ok out unfolding inv1_def by simp
qed

lemma typeof_object_cases:
  assumes "typeof h v = ''object''" and "v \<noteq> VNull"
  shows "\<exists>a. v = VRef a \<and> (a < length h \<longrightarrow> \<not> callable (h ! a))"
  using assms by (cases v) (auto simp: typeof_def obj_at_def split: if_splits)

lemma sval_not_object:
  assumes "prefix h0 h" and "val_ok (length h0) v" and "typeof h v \<noteq> ''object''"
  shows "sval h0 L v"
proof (cases v)
  case (VRef b)
  then have b: "b < length h0" using assms(2) by (simp add: val_ok_def)
  then have "b < length h" "h ! b = h0 ! b" using assms(1) by (auto simp: prefix_nth_iff)
  then have "callable (h0 ! b)" using assms(3) VRef by (auto simp: typeof_def split: if_splits)
  then show ?thesis using VRef b by (simp add: sval_def)
qed (simp_all add: sval_def)

lemma clone_good:
  "plain_run H procs h0 \<Longrightarrow> inv1 H h0 tMap h \<Longrightarrow> val_ok (length h0) input \<Longrightarrow>
   iSClone H procs fuel input tMap h = Some (Inr (v, tMap', h')) \<Longrightarrow>
     inv1 H h0 tMap' h' \<and> sval h0 (length h') v"
  "plain_run H procs h0 \<Longrightarrow> inv1 H h0 tMap h \<Longrightarrow> val_ok (length h0) input \<Longrightarrow>
   input \<noteq> VNull \<Longrightarrow> typeof h input = ''object'' \<Longrightarrow>
   handleObjectClone H procs fuel input tMap h = Some (Inr (v, tMap', h')) \<Longrightarrow>
     inv1 H h0 tMap' h' \<and> sval h0 (length h') v"
  "plain_run H procs h0 \<Longrightarrow> inv1 H h0 tMap h \<Longrightarrow> input = VRef a \<Longrightarrow> a < length h0 \<Longrightarrow>
   outp = VRef out \<Longrightarrow> length h0 \<le> out \<Longrightarrow> out < length h \<Longrightarrow>
   Class (h ! out) \<in> {''Array'', ''Object''} \<Longrightarrow> Class (h ! out) = Class (h0 ! a) \<Longrightarrow>
   handleCollectionClone H procs fuel ks input outp tMap h = Some (Inr (u, tMap', h')) \<Longrightarrow>
     inv1 H h0 tMap' h'"
proof (induction H procs fuel input tMap h and H procs fuel input tMap h and H procs fuel ks input outp tMap h
    arbitrary: v tMap' h' and v tMap' h' and u tMap' h' a out
    rule: iSClone_handleObjectClone_handleCollectionClone.induct)
  case (1 H procs fuel input tMap h)
  show ?case
  proof (cases "input = VNull")
    case True
    then show ?thesis using "1.prems" by (simp add: iSClone.simps sval_def)
  next
    case nn: False
    show ?thesis
    proof (cases "typeof h input = ''object''")
      case True
      then obtain n where n: "fuel = Suc n"
        and ho: "handleObjectClone H procs n input tMap h = Some (Inr (v, tMap', h'))"
        using "1.prems"(4) nn by (auto simp: iSClone.simps split: nat.splits)
      show ?thesis using "1.IH"[OF nn True n "1.prems"(1,2,3) nn True ho] .
    next
      case False
      have p: "prefix h0 h" using "1.prems"(2) by (simp add: inv1_def)
      have "v = input" "tMap' = tMap" "h' = h"
        using "1.prems"(4) iSClone_not_object[OF False] by simp_all
      then show ?thesis using "1.prems"(2) sval_not_object[OF p "1.prems"(3) False] by simp
    qed
  qed
next
  case (2 H procs fuel input tMap h)
  have p: "prefix h0 h" using "2.prems"(2) by (simp add: inv1_def)
  obtain a where a: "input = VRef a" using typeof_object_cases[OF "2.prems"(5,4)] by blast
  then have a0: "a < length h0" using "2.prems"(3) by (simp add: val_ok_def)
  from "2.prems"(6) obtain outp isC tMap2 h2 where
    sh: "handleObjectClone_shell H procs input tMap h = Inr (outp, isC, tMap2, h2)"
    by (auto simp: handleObjectClone.simps split: sum.splits)
  from shell_plain[OF "2.prems"(1,2) a0 sh[unfolded a]]
  show ?case
  proof
    assume r: "registered tMap (VRef a) \<and> outp = TransferMap_get tMap (VRef a) \<and> \<not> isC \<and>
          tMap2 = tMap \<and> h2 = h"
    then have "handleObjectClone H procs fuel input tMap h = Some (Inr (outp, tMap, h))"
      using sh by (simp add: handleObjectClone.simps)
    then have "v = outp" "tMap' = tMap" "h' = h"
      using "2.prems"(6) by simp_all
    moreover obtain b where "outp = VRef b" "length h0 \<le> b" "b < length h"
      using inv1_get[OF "2.prems"(2)] r by blast
    ultimately show ?thesis using "2.prems"(2) by (simp add: sval_def)
  next
    assume "\<not> registered tMap (VRef a) \<and>
          (\<exists>ob'. h2 = h @ [ob'] \<and> outp = VRef (length h) \<and>
             tMap2 = TransferMap_set tMap (VRef a) outp \<and>
             inputs tMap2 = inputs tMap @ [VRef a] \<and> outputs tMap2 = outputs tMap @ [outp] \<and>
             good_obj H h0 (Suc (length h)) ob' \<and> Class ob' = Class (h0 ! a) \<and>
             isC = (Class ob' \<in> {''Array'', ''Object''}))"
    then obtain ob' where n: "h2 = h @ [ob']" "outp = VRef (length h)"
      "inputs tMap2 = inputs tMap @ [VRef a]" "outputs tMap2 = outputs tMap @ [outp]"
      "good_obj H h0 (Suc (length h)) ob'" "Class ob' = Class (h0 ! a)"
      "isC = (Class ob' \<in> {''Array'', ''Object''})"
      by blast
    have i2: "inv1 H h0 tMap2 h2"
      unfolding n(1) using inv1_alloc[OF "2.prems"(2) n(5) n(3)] n(4,2) by simp
    have le: "length h0 \<le> length h" using p by (simp add: prefix_nth_iff)
    show ?thesis
    proof (cases isC)
      case False
      then have "handleObjectClone H procs fuel input tMap h = Some (Inr (outp, tMap2, h2))"
        using sh by (simp add: handleObjectClone.simps)
      then have "v = outp" "tMap' = tMap2" "h' = h2"
        using "2.prems"(6) by simp_all
      then show ?thesis using i2 n(1,2) le by (simp add: sval_def)
    next
      case True
      then obtain u where
        lp: "handleCollectionClone H procs fuel (for_in_keys (length h2) h2 input []) input outp tMap2 h2
              = Some (Inr (u, tMap', h'))" and vo: "v = outp"
        using "2.prems"(6) sh by (auto simp: handleObjectClone.simps split: option.splits sum.splits)
      have o2: "length h < length h2" "h2 ! length h = ob'" using n(1) by simp_all
      have c1: "Class (h2 ! length h) \<in> {''Array'', ''Object''}" using True n(7) o2 by simp
      have c2: "Class (h2 ! length h) = Class (h0 ! a)" using n(6) o2 by simp
      have i': "inv1 H h0 tMap' h'"
        using "2.IH"[OF sh refl refl refl True "2.prems"(1) i2 a a0 n(2) le o2(1) c1 c2 lp] .
      have "length h2 \<le> length h'"
        using clone_frame(3)[OF plain_runD(1)[OF "2.prems"(1)] lp] by simp
      then show ?thesis using i' vo n(2) le o2(1) by (simp add: sval_def)
    qed
  qed
next
  case (3 H procs fuel input outp tMap h)
  then show ?case by simp
next
  case (4 H procs fuel key rest input outp tMap h)
  show ?case
  proof (cases "hasOwnProperty h input key")
    case False
    then show ?thesis using "4.IH"(3)[OF False "4.prems"(1-9)] "4.prems"(10) by simp
  next
    case True
    then obtain w tMap1 h1 where
      c: "iSClone H procs fuel (Get h input key) tMap h = Some (Inr (w, tMap1, h1))"
      and r: "handleCollectionClone H procs fuel rest input outp tMap1 (Put h1 outp key w)
            = Some (Inr (u, tMap', h'))"
      using "4.prems"(10) by (auto split: option.splits sum.splits)
    note hf = plain_runD(1)[OF "4.prems"(1)] and wf = plain_runD(2)[OF "4.prems"(1)]
    have p: "prefix h0 h" using "4.prems"(2) by (simp add: inv1_def)
    have gv: "val_ok (length h0) (Get h input key)"
      using Get_ok[OF wf p] "4.prems"(3,4) by (simp add: val_ok_def)
    have i1: "inv1 H h0 tMap1 h1" and sw: "sval h0 (length h1) w"
      using "4.IH"(1)[OF True "4.prems"(1,2) gv c] by simp_all
    have p1: "prefix h h1" using clone_frame(1)[OF hf c] .
    then have o1: "out < length h1" "h1 ! out = h ! out"
      using "4.prems"(7) by (auto simp: prefix_nth_iff)
    have la: "a < length h" "h ! a = h0 ! a" using p "4.prems"(4) by (auto simp: prefix_nth_iff)
    have g1: "good_obj H h0 (length h1) (h1 ! out)"
      using i1 "4.prems"(6) o1(1) by (simp add: inv1_def)
    have len: "\<exists>n. w = VNumber n \<and> is_array_length n"
      if "Class (h1 ! out) = ''Array''" "key = ''length''"
    proof -
      have "Class (h0 ! a) = ''Array''" using that(1) o1(2) "4.prems"(9) by simp
      then obtain n where n: "is_array_length n"
        "map_of (props (h0 ! a)) ''length'' = Some (VNumber n, False)"
        using wf_heapD(5)[OF wf "4.prems"(4)] by (auto simp: array_ok_def)
      have "Get h input key = VNumber n"
        using Get_own[OF la(1), of "''length''" "VNumber n" False] la(2) n(2) "4.prems"(3) that(2)
        by simp
      then have "w = VNumber n"
        using c iSClone_not_object[of h "VNumber n" H procs fuel tMap] by (simp add: typeof_def)
      then show ?thesis using n(1) by simp
    qed
    have gp: "good_obj H h0 (length h1) ((h1 ! out)\<lparr>props := put_prop (props (h1 ! out)) key w\<rparr>)"
      using good_obj_put[OF g1 _ sw len] o1(2) "4.prems"(8) by simp
    have i1': "inv1 H h0 tMap1 (Put h1 outp key w)"
      unfolding "4.prems"(5) using inv1_Put[OF i1 "4.prems"(6) o1(1) gp] .
    have c1: "Class (Put h1 outp key w ! out) \<in> {''Array'', ''Object''}"
      "Class (Put h1 outp key w ! out) = Class (h0 ! a)"
      using o1(2) "4.prems"(8,9) by simp_all
    have o1': "out < length (Put h1 outp key w)" using o1(1) by simp
    show ?thesis
      using "4.IH"(2)[OF True c refl refl refl "4.prems"(1) i1' "4.prems"(3,4,5,6) o1' c1 r] .
  qed
qed


end
